theory Spec2Isabelle
  imports Complex_Main
begin

section \<open>Exceptions and effects\<close>

text \<open>
  The Python exceptions that the controller code can meet, each carrying \<open>str(e)\<close>.
  \<open>PermissionError\<close> is the only class that \<open>safe_remove\<close> treats specially; every
  constructor is a subclass of \<open>Exception\<close>, so \<open>except Exception\<close> catches all of them.
\<close>

datatype exn =
    PermissionError string
  | FileNotFoundError string
  | OSError string
  | RuntimeError string
  | ValueError string
  | ZeroDivisionError string
  | OtherException string

fun str_exn :: "exn \<Rightarrow> string" where
  "str_exn (PermissionError m) = m"
| "str_exn (FileNotFoundError m) = m"
| "str_exn (OSError m) = m"
| "str_exn (RuntimeError m) = m"
| "str_exn (ValueError m) = m"
| "str_exn (ZeroDivisionError m) = m"
| "str_exn (OtherException m) = m"

fun is_PermissionError :: "exn \<Rightarrow> bool" where
  "is_PermissionError (PermissionError m) = True"
| "is_PermissionError e = False"

text \<open>
  What \<open>safe_remove\<close> does to the outside world, in order: a call of \<open>os.remove(path)\<close>
  or a call of \<open>time.sleep(0.1)\<close>.
\<close>

datatype effect = OsRemove string | Sleep100ms

section \<open>safe\_remove\<close>

text \<open>
  \<^verbatim>\<open>
  def safe_remove(path, retries=3):
      for _ in range(retries):
          try:
              os.remove(path)
              return
          except PermissionError:
              time.sleep(0.1)
      os.remove(path)
  \<close>
  The file system is an oracle \<open>os_remove\<close>: the outcome of the \<open>k\<close>-th call of
  \<open>os.remove\<close> made by this invocation (\<open>None\<close>: the file was removed, \<open>Some e\<close>: the call
  raised \<open>e\<close>). The result is \<open>Inr ()\<close> for a normal return and \<open>Inl e\<close> for an exception
  leaving \<open>safe_remove\<close>, together with the effects performed. \<open>n\<close> counts the iterations
  of the \<open>for\<close> loop that are left and \<open>k\<close> the calls of \<open>os.remove\<close> made so far.
\<close>

fun safe_remove_loop ::
  "(nat \<Rightarrow> exn option) \<Rightarrow> string \<Rightarrow> nat \<Rightarrow> nat \<Rightarrow> (exn + unit) \<times> effect list" where
  "safe_remove_loop os_remove path 0 k =
     (case os_remove k of
        None \<Rightarrow> (Inr (), [OsRemove path])
      | Some e \<Rightarrow> (Inl e, [OsRemove path]))"
| "safe_remove_loop os_remove path (Suc n) k =
     (case os_remove k of
        None \<Rightarrow> (Inr (), [OsRemove path])
      | Some e \<Rightarrow>
          if is_PermissionError e
          then (let (r, effs) = safe_remove_loop os_remove path n (Suc k)
                in (r, OsRemove path # Sleep100ms # effs))
          else (Inl e, [OsRemove path]))"

text \<open>\<open>range(retries)\<close> is empty for a negative \<open>retries\<close>, hence \<open>nat retries\<close>.\<close>

definition safe_remove :: "(nat \<Rightarrow> exn option) \<Rightarrow> string \<Rightarrow> int \<Rightarrow> (exn + unit) \<times> effect list" where
  "safe_remove os_remove path retries = safe_remove_loop os_remove path (nat retries) 0"

text \<open>The effects of \<open>j\<close> guarded attempts that each failed with a \<open>PermissionError\<close>.\<close>

fun guarded_failures :: "string \<Rightarrow> nat \<Rightarrow> effect list" where
  "guarded_failures path 0 = []"
| "guarded_failures path (Suc j) = OsRemove path # Sleep100ms # guarded_failures path j"

definition count_removes :: "effect list \<Rightarrow> nat" where
  "count_removes effs = length (filter (\<lambda>e. e \<noteq> Sleep100ms) effs)"

definition count_sleeps :: "effect list \<Rightarrow> nat" where
  "count_sleeps effs = length (filter (\<lambda>e. e = Sleep100ms) effs)"

section \<open>Properties of safe\_remove\<close>

lemma count_guarded_failures:
  "count_removes (guarded_failures path j @ effs) = j + count_removes effs"
  "count_sleeps (guarded_failures path j @ effs) = j + count_sleeps effs"
  by (induction j) (simp_all add: count_removes_def count_sleeps_def)

lemma safe_remove_loop_all_busy:
  "(\<And>j. j \<le> n \<Longrightarrow> \<exists>m. os_remove (k + j) = Some (PermissionError m)) \<Longrightarrow>
   safe_remove_loop os_remove path n k =
     (case os_remove (k + n) of Some e \<Rightarrow> Inl e | None \<Rightarrow> Inr (),
      guarded_failures path n @ [OsRemove path])"
proof (induction n arbitrary: k)
  case 0
  from 0 [of 0] obtain m where "os_remove k = Some (PermissionError m)" by auto
  then show ?case by simp
next
  case (Suc n)
  from Suc.prems [of 0] obtain m where m: "os_remove k = Some (PermissionError m)" by auto
  have "\<And>j. j \<le> n \<Longrightarrow> \<exists>m. os_remove (Suc k + j) = Some (PermissionError m)"
    using Suc.prems [of "Suc _"] by simp
  from Suc.IH [OF this] show ?case using m by simp
qed

lemma safe_remove_loop_stop:
  "j \<le> n \<Longrightarrow> (\<And>i. i < j \<Longrightarrow> \<exists>m. os_remove (k + i) = Some (PermissionError m)) \<Longrightarrow>
   (case os_remove (k + j) of None \<Rightarrow> True | Some e \<Rightarrow> \<not> is_PermissionError e) \<Longrightarrow>
   safe_remove_loop os_remove path n k =
     (case os_remove (k + j) of Some e \<Rightarrow> Inl e | None \<Rightarrow> Inr (),
      guarded_failures path j @ [OsRemove path])"
proof (induction j arbitrary: n k)
  case 0
  then show ?case by (cases n) (auto split: option.splits)
next
  case (Suc j)
  from Suc.prems(1) obtain n' where n: "n = Suc n'" and le: "j \<le> n'" by (cases n) auto
  from Suc.prems(2) [of 0] obtain m where m: "os_remove k = Some (PermissionError m)" by auto
  have a: "\<And>i. i < j \<Longrightarrow> \<exists>m. os_remove (Suc k + i) = Some (PermissionError m)"
    using Suc.prems(2) [of "Suc _"] by simp
  have b: "case os_remove (Suc k + j) of None \<Rightarrow> True | Some e \<Rightarrow> \<not> is_PermissionError e"
    using Suc.prems(3) by simp
  from Suc.IH [OF le a b] show ?case using m n by simp
qed

text \<open>
  Claim C8. When every call of \<open>os.remove\<close> raises a \<open>PermissionError\<close>, \<open>safe_remove\<close>
  makes exactly \<open>retries\<close> guarded attempts, each followed by one sleep of 0.1 s, then one
  last attempt outside the \<open>try\<close>, and the exception of that last attempt leaves
  \<open>safe_remove\<close>. When the guarded attempt number \<open>j\<close> (counted from 0, after \<open>j\<close>
  attempts that raised \<open>PermissionError\<close>) succeeds, \<open>safe_remove\<close> returns at once:
  no sleep follows it and no further attempt is made.
\<close>

theorem safe_remove_retry_budget:
  "((\<forall>k \<le> nat retries. \<exists>m. os_remove k = Some (PermissionError m)) \<longrightarrow>
      (\<exists>m. os_remove (nat retries) = Some (PermissionError m) \<and>
           fst (safe_remove os_remove path retries) = Inl (PermissionError m)) \<and>
      snd (safe_remove os_remove path retries) =
        guarded_failures path (nat retries) @ [OsRemove path] \<and>
      count_removes (snd (safe_remove os_remove path retries)) = nat retries + 1 \<and>
      count_sleeps (snd (safe_remove os_remove path retries)) = nat retries) \<and>
   (j < nat retries \<and> (\<forall>i < j. \<exists>m. os_remove i = Some (PermissionError m)) \<and>
    os_remove j = None \<longrightarrow>
      safe_remove os_remove path retries = (Inr (), guarded_failures path j @ [OsRemove path]) \<and>
      count_removes (snd (safe_remove os_remove path retries)) = j + 1 \<and>
      count_sleeps (snd (safe_remove os_remove path retries)) = j)"
proof (intro conjI impI)
  assume busy: "\<forall>k \<le> nat retries. \<exists>m. os_remove k = Some (PermissionError m)"
  then have "\<And>j. j \<le> nat retries \<Longrightarrow> \<exists>m. os_remove (0 + j) = Some (PermissionError m)"
    by simp
  from safe_remove_loop_all_busy [of "nat retries" os_remove 0 path, OF this]
  have eq: "safe_remove os_remove path retries =
      (case os_remove (nat retries) of Some e \<Rightarrow> Inl e | None \<Rightarrow> Inr (),
       guarded_failures path (nat retries) @ [OsRemove path])"
    by (simp add: safe_remove_def)
  from busy obtain m where m: "os_remove (nat retries) = Some (PermissionError m)" by auto
  show "\<exists>m. os_remove (nat retries) = Some (PermissionError m) \<and>
           fst (safe_remove os_remove path retries) = Inl (PermissionError m)"
    using eq m by simp
  show "snd (safe_remove os_remove path retries) =
        guarded_failures path (nat retries) @ [OsRemove path]"
    using eq by simp
  then show "count_removes (snd (safe_remove os_remove path retries)) = nat retries + 1"
    and "count_sleeps (snd (safe_remove os_remove path retries)) = nat retries"
    by (simp_all add: count_guarded_failures) (simp_all add: count_removes_def count_sleeps_def)
next
  assume h: "j < nat retries \<and> (\<forall>i < j. \<exists>m. os_remove i = Some (PermissionError m)) \<and>
    os_remove j = None"
  then have a: "j \<le> nat retries"
    and b: "\<And>i. i < j \<Longrightarrow> \<exists>m. os_remove (0 + i) = Some (PermissionError m)"
    and c: "case os_remove (0 + j) of None \<Rightarrow> True | Some e \<Rightarrow> \<not> is_PermissionError e"
    by simp_all
  from safe_remove_loop_stop [of j "nat retries" os_remove 0 path, OF a b c] h
  have eq: "safe_remove os_remove path retries =
      (Inr (), guarded_failures path j @ [OsRemove path])"
    by (simp add: safe_remove_def)
  then show "safe_remove os_remove path retries =
      (Inr (), guarded_failures path j @ [OsRemove path])" .
  show "count_removes (snd (safe_remove os_remove path retries)) = j + 1"
    and "count_sleeps (snd (safe_remove os_remove path retries)) = j"
    unfolding eq by (simp_all add: count_guarded_failures)
      (simp_all add: count_removes_def count_sleeps_def)
qed

text \<open>
  The witness: the default budget of 3 with a file that is always in use (three guarded
  attempts and sleeps, a fourth attempt, its \<open>PermissionError\<close> propagates), and with a
  file that is released before the third attempt.
\<close>

theorem safe_remove_retry_budget_witness:
  "safe_remove (\<lambda>k. Some (PermissionError ''in use'')) ''a.png'' 3 =
     (Inl (PermissionError ''in use''),
      [OsRemove ''a.png'', Sleep100ms, OsRemove ''a.png'', Sleep100ms,
       OsRemove ''a.png'', Sleep100ms, OsRemove ''a.png'']) \<and>
   (2::nat) < nat 3 \<and>
   safe_remove (\<lambda>k. if k < 2 then Some (PermissionError ''in use'') else None) ''a.png'' 3 =
     (Inr (), [OsRemove ''a.png'', Sleep100ms, OsRemove ''a.png'', Sleep100ms,
       OsRemove ''a.png''])"
  using safe_remove_retry_budget
    [of 3 "\<lambda>k. Some (PermissionError ''in use'')" "''a.png''" 2]
    safe_remove_retry_budget
    [of 3 "\<lambda>k. if k < 2 then Some (PermissionError ''in use'') else None" "''a.png''" 2]
  by (simp add: prod_eq_iff numeral_2_eq_2 numeral_3_eq_3)

text \<open>
  Claim C10. Only \<open>PermissionError\<close> is retried: when a guarded attempt raises any other
  exception (after \<open>j\<close> attempts that raised \<open>PermissionError\<close>), that exception leaves
  \<open>safe_remove\<close> from that attempt, with no sleep after it and no further attempt.
\<close>

theorem safe_remove_other_exception_propagates:
  "j < nat retries \<Longrightarrow> (\<forall>i < j. \<exists>m. os_remove i = Some (PermissionError m)) \<Longrightarrow>
   os_remove j = Some e \<Longrightarrow> \<not> is_PermissionError e \<Longrightarrow>
   safe_remove os_remove path retries = (Inl e, guarded_failures path j @ [OsRemove path]) \<and>
   count_removes (snd (safe_remove os_remove path retries)) = j + 1 \<and>
   count_sleeps (snd (safe_remove os_remove path retries)) = j"
proof -
  assume h: "j < nat retries" "\<forall>i < j. \<exists>m. os_remove i = Some (PermissionError m)"
    "os_remove j = Some e" "\<not> is_PermissionError e"
  then have a: "j \<le> nat retries"
    and b: "\<And>i. i < j \<Longrightarrow> \<exists>m. os_remove (0 + i) = Some (PermissionError m)"
    and c: "case os_remove (0 + j) of None \<Rightarrow> True | Some e \<Rightarrow> \<not> is_PermissionError e"
    by simp_all
  from safe_remove_loop_stop [of j "nat retries" os_remove 0 path, OF a b c] h
  have eq: "safe_remove os_remove path retries =
      (Inl e, guarded_failures path j @ [OsRemove path])"
    by (simp add: safe_remove_def)
  show ?thesis
    unfolding eq by (simp add: count_guarded_failures)
      (simp add: count_removes_def count_sleeps_def)
qed

text \<open>
  The witness: a missing file on the first attempt, and a file that is in use once and
  missing at the second attempt; three retries were allowed in both cases.
\<close>

theorem safe_remove_other_exception_propagates_witness:
  "safe_remove (\<lambda>k. Some (FileNotFoundError ''No such file'')) ''a.png'' 3 =
     (Inl (FileNotFoundError ''No such file''), [OsRemove ''a.png'']) \<and>
   safe_remove (\<lambda>k. if k < 1 then Some (PermissionError ''in use'')
                     else Some (FileNotFoundError ''No such file'')) ''a.png'' 3 =
     (Inl (FileNotFoundError ''No such file''),
      [OsRemove ''a.png'', Sleep100ms, OsRemove ''a.png''])"
  using safe_remove_other_exception_propagates
    [of 0 3 "\<lambda>k. Some (FileNotFoundError ''No such file'')"
        "FileNotFoundError ''No such file''" "''a.png''"]
    safe_remove_other_exception_propagates
    [of 1 3 "\<lambda>k. if k < 1 then Some (PermissionError ''in use'')
                     else Some (FileNotFoundError ''No such file'')"
        "FileNotFoundError ''No such file''" "''a.png''"]
  by simp

section \<open>Strings and paths\<close>

text \<open>
  Python strings are modelled as \<open>string\<close>; a character outside ASCII is its UTF-8 bytes.
  \<open>str_nat\<close> is \<open>str(i)\<close> on a non-negative integer: its decimal digits, most
  significant first. \<open>os_path_join\<close> is \<open>posixpath.join\<close> on two arguments: a second
  argument that starts with the separator replaces the first; otherwise the two are
  concatenated, with a separator between them unless the first is empty or already ends
  with one.
\<close>

definition digit_char :: "nat \<Rightarrow> char" where
  "digit_char d = ''0123456789'' ! d"

fun str_nat :: "nat \<Rightarrow> string" where
  "str_nat n = (if n < 10 then [digit_char n] else str_nat (n div 10) @ [digit_char (n mod 10)])"

declare str_nat.simps [simp del]

definition os_path_join :: "string \<Rightarrow> string \<Rightarrow> string" where
  "os_path_join a b =
     (if b \<noteq> [] \<and> hd b = CHR ''/'' then b
      else if a = [] \<or> last a = CHR ''/'' then a @ b
      else a @ ''/'' @ b)"

text \<open>
  \<^verbatim>\<open>
  def resolve_name(self, base):
      path = os.path.join(self.output_dir, f"{base}.webp")
      i = 1
      while os.path.exists(path):
          path = os.path.join(self.output_dir, f"{base}_{i}.webp")
          i += 1
      return path
  \<close>
  \<open>fs\<close> lists the paths at which \<open>os.path.exists\<close> answers \<open>True\<close> during the call; a
  directory has finitely many entries, which is what makes the loop end. The counter
  \<open>i\<close> starts at 1 and is only incremented, so it is a \<open>nat\<close>.
\<close>

function resolve_loop :: "string list \<Rightarrow> string \<Rightarrow> string \<Rightarrow> string \<Rightarrow> nat \<Rightarrow> string" where
  "resolve_loop fs output_dir base path i =
     (if path \<in> set fs
      then resolve_loop fs output_dir base
             (os_path_join output_dir (base @ ''_'' @ str_nat i @ ''.webp'')) (i + 1)
      else path)"
  by pat_completeness auto

text \<open>\<open>numbered output_dir base i\<close> is the path the loop body computes for counter \<open>i\<close>.\<close>

definition numbered :: "string \<Rightarrow> string \<Rightarrow> nat \<Rightarrow> string" where
  "numbered output_dir base i = os_path_join output_dir (base @ ''_'' @ str_nat i @ ''.webp'')"

lemma digit_char_inj: "a < 10 \<Longrightarrow> b < 10 \<Longrightarrow> digit_char a = digit_char b \<Longrightarrow> a = b"
proof -
  assume a: "a < 10" and b: "b < 10" and e: "digit_char a = digit_char b"
  from a have "a \<in> {0,1,2,3,4,5,6,7,8,9}" by auto
  moreover from b have "b \<in> {0,1,2,3,4,5,6,7,8,9}" by auto
  ultimately show ?thesis using e
    by (auto simp: digit_char_def)
qed

lemma str_nat_nonempty: "str_nat n \<noteq> []"
  by (subst str_nat.simps) simp

lemma str_nat_inj: "str_nat n = str_nat m \<Longrightarrow> n = m"
proof (induction n arbitrary: m rule: str_nat.induct)
  case (1 n)
  show ?case
  proof (cases "n < 10")
    case True
    then have n: "str_nat n = [digit_char n]" by (subst str_nat.simps) simp
    show ?thesis
    proof (cases "m < 10")
      case True
      then have "str_nat m = [digit_char m]" by (subst str_nat.simps) simp
      with n "1.prems" \<open>n < 10\<close> True show ?thesis by (auto dest: digit_char_inj)
    next
      case False
      then have "str_nat m = str_nat (m div 10) @ [digit_char (m mod 10)]"
        by (subst str_nat.simps) simp
      with n "1.prems" str_nat_nonempty [of "m div 10"] show ?thesis by simp
    qed
  next
    case False
    then have n: "str_nat n = str_nat (n div 10) @ [digit_char (n mod 10)]"
      by (subst str_nat.simps) simp
    show ?thesis
    proof (cases "m < 10")
      case True
      then have "str_nat m = [digit_char m]" by (subst str_nat.simps) simp
      with n "1.prems" str_nat_nonempty [of "n div 10"] show ?thesis by simp
    next
      case m: False
      then have "str_nat m = str_nat (m div 10) @ [digit_char (m mod 10)]"
        by (subst str_nat.simps) simp
      with n "1.prems" have e1: "str_nat (n div 10) = str_nat (m div 10)"
        and e2: "digit_char (n mod 10) = digit_char (m mod 10)" by simp_all
      from "1.IH" [OF False e1] have "n div 10 = m div 10" .
      moreover from e2 have "n mod 10 = m mod 10" by (auto dest!: digit_char_inj [rotated 2])
      ultimately show ?thesis by (metis div_mult_mod_eq)
    qed
  qed
qed


lemma os_path_join_prefix:
  "\<exists>pre. \<forall>s. os_path_join output_dir (base @ CHR ''_'' # s) = pre @ base @ CHR ''_'' # s"
proof (cases "base \<noteq> [] \<and> hd base = CHR ''/''")
  case True
  then have "\<forall>s. os_path_join output_dir (base @ CHR ''_'' # s) = [] @ base @ CHR ''_'' # s"
    by (simp add: os_path_join_def)
  then show ?thesis by blast
next
  case False
  then have h: "\<And>s. \<not> (base @ CHR ''_'' # s \<noteq> [] \<and> hd (base @ CHR ''_'' # s) = CHR ''/'')"
    by (cases base) auto
  show ?thesis
  proof (cases "output_dir = [] \<or> last output_dir = CHR ''/''")
    case True
    with h have "\<forall>s. os_path_join output_dir (base @ CHR ''_'' # s) = output_dir @ base @ CHR ''_'' # s"
      unfolding os_path_join_def by simp
    then show ?thesis by blast
  next
    case False
    with h have "\<forall>s. os_path_join output_dir (base @ CHR ''_'' # s) = (output_dir @ ''/'') @ base @ CHR ''_'' # s"
      unfolding os_path_join_def by simp
    then show ?thesis by blast
  qed
qed

lemma numbered_inj: "numbered output_dir base i = numbered output_dir base j \<Longrightarrow> i = j"
proof -
  assume e: "numbered output_dir base i = numbered output_dir base j"
  obtain pre where
    pre: "\<And>s. os_path_join output_dir (base @ CHR ''_'' # s) = pre @ base @ CHR ''_'' # s"
    using os_path_join_prefix by blast
  from e have "str_nat i @ ''.webp'' = str_nat j @ ''.webp''"
    unfolding numbered_def using pre [of "str_nat i @ ''.webp''"] pre [of "str_nat j @ ''.webp''"]
    by simp
  then have "str_nat i = str_nat j" by simp
  then show ?thesis by (rule str_nat_inj)
qed

definition taken_from :: "string list \<Rightarrow> string \<Rightarrow> string \<Rightarrow> nat \<Rightarrow> string set" where
  "taken_from fs output_dir base i = set fs \<inter> numbered output_dir base ` {i..}"

lemma taken_from_step:
  "card (taken_from fs output_dir base (Suc i)) +
     (if numbered output_dir base i \<in> set fs then 1 else 0) =
   card (taken_from fs output_dir base i)"
proof -
  have fin: "finite (taken_from fs output_dir base (Suc i))"
    by (simp add: taken_from_def)
  have notin: "numbered output_dir base i \<notin> taken_from fs output_dir base (Suc i)"
    by (auto simp: taken_from_def dest: numbered_inj)
  have split: "{i..} = insert i {Suc i..}" by auto
  show ?thesis
  proof (cases "numbered output_dir base i \<in> set fs")
    case True
    then have "taken_from fs output_dir base i =
        insert (numbered output_dir base i) (taken_from fs output_dir base (Suc i))"
      unfolding taken_from_def by (subst split) auto
    with fin notin True show ?thesis by simp
  next
    case False
    then have "taken_from fs output_dir base i = taken_from fs output_dir base (Suc i)"
      unfolding taken_from_def by (subst split) auto
    with False show ?thesis by simp
  qed
qed

termination resolve_loop
proof (relation "measure (\<lambda>(fs, output_dir, base, path, i).
    card (taken_from fs output_dir base i) + (if path \<in> set fs then 1 else 0))")
  show "wf (measure (\<lambda>(fs, output_dir, base, path, i).
    card (taken_from fs output_dir base i) + (if path \<in> set fs then 1 else 0)))"
    by simp
next
  fix fs :: "string list" and output_dir base path :: string and i :: nat
  assume "path \<in> set fs"
  then show "((fs, output_dir, base,
      os_path_join output_dir (base @ ''_'' @ str_nat i @ ''.webp''), i + 1),
      (fs, output_dir, base, path, i))
    \<in> measure (\<lambda>(fs, output_dir, base, path, i).
        card (taken_from fs output_dir base i) + (if path \<in> set fs then 1 else 0))"
    using taken_from_step [of fs output_dir base i]
    by (simp add: numbered_def)
qed

declare resolve_loop.simps [simp del]

definition resolve_name :: "string list \<Rightarrow> string \<Rightarrow> string \<Rightarrow> string" where
  "resolve_name fs output_dir base =
     resolve_loop fs output_dir base (os_path_join output_dir (base @ ''.webp'')) 1"


text \<open>
  The paths the claim about the resolver speaks of: number 0 is \<open>base.webp\<close>, number
  \<open>k > 0\<close> is \<open>base_k.webp\<close>, all in the output directory.
\<close>

definition candidate :: "string \<Rightarrow> string \<Rightarrow> nat \<Rightarrow> string" where
  "candidate output_dir base k =
     (if k = 0 then os_path_join output_dir (base @ ''.webp'') else numbered output_dir base k)"

lemma resolve_loop_result:
  "path \<notin> set fs \<and> resolve_loop fs output_dir base path i = path \<or>
   path \<in> set fs \<and> (\<exists>n \<ge> i. resolve_loop fs output_dir base path i = numbered output_dir base n \<and>
      numbered output_dir base n \<notin> set fs \<and>
      (\<forall>k. i \<le> k \<and> k < n \<longrightarrow> numbered output_dir base k \<in> set fs))"
proof (induction fs output_dir base path i rule: resolve_loop.induct)
  case (1 fs output_dir base path i)
  show ?case
  proof (cases "path \<in> set fs")
    case False
    then show ?thesis by (subst resolve_loop.simps) simp
  next
    case True
    let ?p = "os_path_join output_dir (base @ ''_'' @ str_nat i @ ''.webp'')"
    have unf: "resolve_loop fs output_dir base path i = resolve_loop fs output_dir base ?p (i + 1)"
      using True by (subst resolve_loop.simps) simp
    have p: "?p = numbered output_dir base i" by (simp add: numbered_def)
    from "1.IH" [OF True] consider
      (free) "?p \<notin> set fs" "resolve_loop fs output_dir base ?p (i + 1) = ?p"
      | (taken) n where "?p \<in> set fs" "i + 1 \<le> n"
          "resolve_loop fs output_dir base ?p (i + 1) = numbered output_dir base n"
          "numbered output_dir base n \<notin> set fs"
          "\<forall>k. i + 1 \<le> k \<and> k < n \<longrightarrow> numbered output_dir base k \<in> set fs"
      by blast
    then show ?thesis
    proof cases
      case free
      with True unf p show ?thesis by (intro disjI2 conjI exI [of _ i]) auto
    next
      case taken
      have "\<forall>k. i \<le> k \<and> k < n \<longrightarrow> numbered output_dir base k \<in> set fs"
      proof (intro allI impI)
        fix k assume k: "i \<le> k \<and> k < n"
        show "numbered output_dir base k \<in> set fs"
        proof (cases "k = i")
          case True with taken(1) p show ?thesis by simp
        next
          case False with k taken(5) show ?thesis by simp
        qed
      qed
      with True unf taken show ?thesis by (intro disjI2 conjI exI [of _ n]) simp_all
    qed
  qed
qed

lemma resolve_name_result:
  "\<exists>n. resolve_name fs output_dir base = candidate output_dir base n \<and>
       candidate output_dir base n \<notin> set fs \<and>
       (\<forall>k < n. candidate output_dir base k \<in> set fs)"
proof -
  let ?p = "os_path_join output_dir (base @ ''.webp'')"
  from resolve_loop_result [of ?p fs output_dir base 1] consider
    (free) "?p \<notin> set fs" "resolve_loop fs output_dir base ?p 1 = ?p"
    | (taken) n where "?p \<in> set fs" "1 \<le> n"
        "resolve_loop fs output_dir base ?p 1 = numbered output_dir base n"
        "numbered output_dir base n \<notin> set fs"
        "\<forall>k. 1 \<le> k \<and> k < n \<longrightarrow> numbered output_dir base k \<in> set fs"
    by blast
  then show ?thesis
  proof cases
    case free
    then show ?thesis
      by (intro exI [of _ 0]) (simp add: resolve_name_def candidate_def)
  next
    case taken
    have "\<forall>k < n. candidate output_dir base k \<in> set fs"
      using taken(1,5) by (auto simp: candidate_def)
    with taken show ?thesis
      by (intro exI [of _ n]) (simp add: resolve_name_def candidate_def)
  qed
qed

lemma first_free_unique:
  "candidate output_dir base n \<notin> set fs \<Longrightarrow> (\<forall>k < n. candidate output_dir base k \<in> set fs) \<Longrightarrow>
   resolve_name fs output_dir base = candidate output_dir base n"
proof -
  assume a: "candidate output_dir base n \<notin> set fs" and b: "\<forall>k < n. candidate output_dir base k \<in> set fs"
  from resolve_name_result [of fs output_dir base] obtain m where
    m: "resolve_name fs output_dir base = candidate output_dir base m"
       "candidate output_dir base m \<notin> set fs" "\<forall>k < m. candidate output_dir base k \<in> set fs"
    by blast
  have "\<not> m < n" using b m(2) by blast
  moreover have "\<not> n < m" using a m(3) by blast
  ultimately have "m = n" by simp
  with m(1) show ?thesis by simp
qed

lemma os_path_join_ends: "\<exists>pre. os_path_join a b = pre @ b"
  unfolding os_path_join_def
  by (metis append_Nil append.assoc)

lemma cand_photo:
  "candidate d ''photo'' 0 = os_path_join d ''photo.webp''"
  "candidate d ''photo'' 1 = os_path_join d ''photo_1.webp''"
  "candidate d ''photo'' 2 = os_path_join d ''photo_2.webp''"
  by (simp_all add: candidate_def numbered_def str_nat.simps digit_char_def)


text \<open>
  Claim C7. For every base name the resolver returns the first path, in the order
  \<open>base.webp\<close>, \<open>base_1.webp\<close>, \<open>base_2.webp\<close>, ..., that does not exist: every earlier
  one exists, the returned one does not. With \<open>photo.webp\<close> present and \<open>photo_1.webp\<close>
  absent the result ends in \<open>photo_1.webp\<close>; with both present (and \<open>photo_2.webp\<close>
  absent) it ends in \<open>photo_2.webp\<close>.
\<close>

theorem resolve_name_first_free:
  "(\<exists>n. resolve_name fs output_dir base = candidate output_dir base n \<and>
        candidate output_dir base n \<notin> set fs \<and>
        (\<forall>k < n. candidate output_dir base k \<in> set fs)) \<and>
   (candidate output_dir base n \<notin> set fs \<and> (\<forall>k < n. candidate output_dir base k \<in> set fs) \<longrightarrow>
      resolve_name fs output_dir base = candidate output_dir base n) \<and>
   (os_path_join output_dir ''photo.webp'' \<in> set fs \<and>
    os_path_join output_dir ''photo_1.webp'' \<notin> set fs \<longrightarrow>
      resolve_name fs output_dir ''photo'' = os_path_join output_dir ''photo_1.webp'' \<and>
      (\<exists>pre. resolve_name fs output_dir ''photo'' = pre @ ''photo_1.webp'')) \<and>
   (os_path_join output_dir ''photo.webp'' \<in> set fs \<and>
    os_path_join output_dir ''photo_1.webp'' \<in> set fs \<and>
    os_path_join output_dir ''photo_2.webp'' \<notin> set fs \<longrightarrow>
      resolve_name fs output_dir ''photo'' = os_path_join output_dir ''photo_2.webp'' \<and>
      (\<exists>pre. resolve_name fs output_dir ''photo'' = pre @ ''photo_2.webp''))"
proof (intro conjI impI)
  show "\<exists>n. resolve_name fs output_dir base = candidate output_dir base n \<and>
        candidate output_dir base n \<notin> set fs \<and>
        (\<forall>k < n. candidate output_dir base k \<in> set fs)"
    by (rule resolve_name_result)
next
  assume "candidate output_dir base n \<notin> set fs \<and> (\<forall>k < n. candidate output_dir base k \<in> set fs)"
  then show "resolve_name fs output_dir base = candidate output_dir base n"
    by (simp add: first_free_unique)
next
  assume h: "os_path_join output_dir ''photo.webp'' \<in> set fs \<and>
    os_path_join output_dir ''photo_1.webp'' \<notin> set fs"
  then have a: "\<forall>k < 1. candidate output_dir ''photo'' k \<in> set fs"
    by (simp add: cand_photo)
  have b: "candidate output_dir ''photo'' 1 \<notin> set fs"
    using h unfolding cand_photo by blast
  from first_free_unique [OF b a]
  show r: "resolve_name fs output_dir ''photo'' = os_path_join output_dir ''photo_1.webp''"
    by (simp only: cand_photo)
  show "\<exists>pre. resolve_name fs output_dir ''photo'' = pre @ ''photo_1.webp''"
    unfolding r by (rule os_path_join_ends)
next
  assume h: "os_path_join output_dir ''photo.webp'' \<in> set fs \<and>
    os_path_join output_dir ''photo_1.webp'' \<in> set fs \<and>
    os_path_join output_dir ''photo_2.webp'' \<notin> set fs"
  have "\<forall>k < 2. candidate output_dir ''photo'' k \<in> set fs"
  proof (intro allI impI)
    fix k :: nat assume "k < 2"
    then have "k = 0 \<or> k = 1" by auto
    with h show "candidate output_dir ''photo'' k \<in> set fs"
      using cand_photo(1,2) [of output_dir] by auto
  qed
  then have a: "\<forall>k < 2. candidate output_dir ''photo'' k \<in> set fs" .
  have b: "candidate output_dir ''photo'' 2 \<notin> set fs"
    using h unfolding cand_photo by blast
  from first_free_unique [OF b a]
  show r: "resolve_name fs output_dir ''photo'' = os_path_join output_dir ''photo_2.webp''"
    by (simp only: cand_photo)
  show "\<exists>pre. resolve_name fs output_dir ''photo'' = pre @ ''photo_2.webp''"
    unfolding r by (rule os_path_join_ends)
qed

text \<open>
  The witness runs the resolver on three directories: an empty one, one that holds
  \<open>photo.webp\<close>, and one that holds \<open>photo.webp\<close> and \<open>photo_1.webp\<close>.
\<close>

theorem resolve_name_first_free_witness:
  "resolve_name [] ''out'' ''photo'' = ''out/photo.webp'' \<and>
   resolve_name [''out/photo.webp''] ''out'' ''photo'' = ''out/photo_1.webp'' \<and>
   resolve_name [''out/photo.webp'', ''out/photo_1.webp''] ''out'' ''photo'' = ''out/photo_2.webp''"
  using resolve_name_first_free [of "[]" "''out''" "''photo''" 0]
    resolve_name_first_free [of "[''out/photo.webp'']" "''out''" "''photo''" 1]
    resolve_name_first_free [of "[''out/photo.webp'', ''out/photo_1.webp'']" "''out''" "''photo''" 2]
  by (simp add: os_path_join_def candidate_def)

section \<open>File names and time formatting\<close>

text \<open>
  \<open>os_path_basename\<close> is \<open>posixpath.basename\<close>: what follows the last separator.
  \<open>splitext_root\<close> is the first component of \<open>os.path.splitext\<close> on a name without
  separators: the name up to its last dot, unless every character before that dot is a
  dot (or there is no dot), in which case the whole name. \<open>lower\<close> is \<open>str.lower\<close> on the
  ASCII letters, which is all that the test for the suffix \<open>.png\<close> can see, and
  \<open>endswith\<close> is \<open>str.endswith\<close>.
\<close>

definition os_path_basename :: "string \<Rightarrow> string" where
  "os_path_basename p = rev (takeWhile (\<lambda>c. c \<noteq> CHR ''/'') (rev p))"

definition splitext_root :: "string \<Rightarrow> string" where
  "splitext_root name =
     (let stem = rev (tl (dropWhile (\<lambda>c. c \<noteq> CHR ''.'') (rev name)))
      in if CHR ''.'' \<in> set name \<and> filter (\<lambda>c. c \<noteq> CHR ''.'') stem \<noteq> [] then stem else name)"

definition lower_char :: "char \<Rightarrow> char" where
  "lower_char c =
     (case map_of (zip ''ABCDEFGHIJKLMNOPQRSTUVWXYZ'' ''abcdefghijklmnopqrstuvwxyz'') c of
        Some d \<Rightarrow> d
      | None \<Rightarrow> c)"

definition lower :: "string \<Rightarrow> string" where
  "lower s = map lower_char s"

definition endswith :: "string \<Rightarrow> string \<Rightarrow> bool" where
  "endswith s suf = (length suf \<le> length s \<and> drop (length s - length suf) s = suf)"

text \<open>
  \<open>strftime_HMS secs\<close> is \<open>time.strftime("%H:%M:%S", time.gmtime(secs))\<close> on a whole number
  of seconds: the time of day, so the hours wrap at 24. (\<open>time.gmtime\<close> raises beyond
  the dates that the platform can represent; such values are not modelled.)
\<close>

definition two_digits :: "int \<Rightarrow> string" where
  "two_digits n = [digit_char (nat (n div 10)), digit_char (nat (n mod 10))]"

definition strftime_HMS :: "int \<Rightarrow> string" where
  "strftime_HMS secs =
     two_digits ((secs mod 86400) div 3600) @ '':'' @
     two_digits ((secs mod 3600) div 60) @ '':'' @
     two_digits (secs mod 60)"

text \<open>The arrow U+2192 of the error message, as its three UTF-8 bytes.\<close>

definition arrow :: string where
  "arrow = [CHR 0xE2, CHR 0x86, CHR 0x92]"

section \<open>Double precision\<close>

text \<open>
  Python's \<open>float\<close> is the IEEE 754 binary64 format, and each arithmetic operation on
  floats returns the exact result rounded to the nearest double, a tie going to the
  double with the even significand. A finite double is a rational number, so rounding
  is a function on the rationals: for \<open>2 ^ e \<le> \<bar>x\<bar> < 2 ^ (e + 1)\<close>, \<open>round_double x\<close>
  is the multiple of \<open>2 ^ (e - 52)\<close> nearest to \<open>x\<close>, which has a significand of 53 bits.
  The exponent is not bounded here: overflow and subnormal numbers need magnitudes
  above \<open>2 ^ 1024\<close> or below \<open>2 ^ - 1022\<close>.

  \<open>bit_length\<close> is the number of binary digits of a positive integer,
  \<open>binary_exponent a\<close> the \<open>e\<close> above for a positive \<open>a\<close>, found from the digits of its
  numerator and denominator.
\<close>

function bit_length :: "int \<Rightarrow> int" where
  "bit_length n = (if n \<le> 0 then 0 else 1 + bit_length (n div 2))"
  by pat_completeness auto

termination bit_length
  by (relation "measure nat") auto

declare bit_length.simps [simp del]

definition pow2 :: "int \<Rightarrow> rat" where
  "pow2 e = (if 0 \<le> e then 2 ^ nat e else 1 / 2 ^ nat (- e))"

definition round_half_even :: "rat \<Rightarrow> int" where
  "round_half_even x =
     (let f = \<lfloor>x\<rfloor>; d = x - of_int f
      in if d < 1 / 2 then f
         else if 1 / 2 < d then f + 1
         else if even f then f else f + 1)"

definition binary_exponent :: "rat \<Rightarrow> int" where
  "binary_exponent a =
     (let (p, d) = quotient_of a;
          k = bit_length p - bit_length d
      in if pow2 k \<le> a then k else k - 1)"

definition round_double :: "rat \<Rightarrow> rat" where
  "round_double x =
     (if x = 0 then 0
      else let a = \<bar>x\<bar>; u = pow2 (binary_exponent a - 52)
           in sgn x * of_int (round_half_even (a / u)) * u)"

text \<open>
  The operations of Python that \<open>task_finished\<close> uses. \<open>int / int\<close> is the correctly
  rounded quotient of the two integers; an \<open>int\<close> that meets a \<open>float\<close> in an operation
  is converted to a \<open>float\<close> first; the divisor is not zero where these are used.
\<close>

definition float_of_int :: "int \<Rightarrow> rat" where
  "float_of_int n = round_double (of_int n)"

definition int_truediv :: "int \<Rightarrow> int \<Rightarrow> rat" where
  "int_truediv a b = round_double (of_int a / of_int b)"

definition float_mul :: "rat \<Rightarrow> rat \<Rightarrow> rat" where
  "float_mul x y = round_double (x * y)"

definition float_truediv :: "rat \<Rightarrow> rat \<Rightarrow> rat" where
  "float_truediv x y = round_double (x / y)"

definition float_sub :: "rat \<Rightarrow> rat \<Rightarrow> rat" where
  "float_sub x y = round_double (x - y)"

section \<open>JobController\<close>

text \<open>
  The four Qt signals of the controller, with their payloads. The payload of \<open>finished\<close>
  is the dictionary \<open>{"converted": ..., "saved_bytes": ...}\<close>, here its two values in
  that order.
\<close>

datatype signal =
    ProgressSignal int
  | EtaSignal string
  | FinishedSignal int int
  | ErrorSignal string

text \<open>
  The attributes of a \<open>JobController\<close>. \<open>max_thread_count\<close> is the limit that
  \<open>__init__\<close> sets on the thread pool; the condition variable \<open>pause_cond\<close> has no
  state of its own beyond the flag \<open>paused\<close> that it guards. Clock readings are
  doubles, given as the rationals they are.
\<close>

record controller =
  files :: "string list"
  output_dir :: string
  quality :: int
  keep_metadata :: bool
  delete_originals :: bool
  max_thread_count :: int
  total :: int
  completed :: int
  orig_bytes :: int
  webp_bytes :: int
  start_time :: rat
  cancelled :: bool
  paused :: bool

text \<open>
  \<^verbatim>\<open>
  def __init__(self, files, output_dir, quality,
               keep_metadata, delete_originals, max_workers):
      ...
      self.pool.setMaxThreadCount(max_workers)
      self.total = len(files)
      self.completed = 0
      self.orig_bytes = 0
      self.webp_bytes = 0
      self.start_time = time.monotonic()
      self.cancelled = False
      self.paused = False
  \<close>
  The last argument is the reading of \<open>time.monotonic()\<close>. No argument is inspected:
  there is no \<open>raise\<close> in the constructor.
\<close>

definition JobController_init ::
  "string list \<Rightarrow> string \<Rightarrow> int \<Rightarrow> bool \<Rightarrow> bool \<Rightarrow> int \<Rightarrow> rat \<Rightarrow> controller" where
  "JobController_init fs out q keep del max_workers now =
     \<lparr> files = fs, output_dir = out, quality = q, keep_metadata = keep,
       delete_originals = del, max_thread_count = max_workers,
       total = int (length fs), completed = 0, orig_bytes = 0, webp_bytes = 0,
       start_time = now, cancelled = False, paused = False \<rparr>"

definition pause :: "controller \<Rightarrow> controller" where
  "pause c = c\<lparr>paused := True\<rparr>"

definition resume :: "controller \<Rightarrow> controller" where
  "resume c = c\<lparr>paused := False\<rparr>"

definition cancel :: "controller \<Rightarrow> controller" where
  "cancel c = c\<lparr>cancelled := True\<rparr>"

text \<open>
  \<^verbatim>\<open>
  def task_finished(self, orig, webp):
      self.completed += 1
      self.orig_bytes += orig
      self.webp_bytes += webp
      percent = int((self.completed / self.total) * 100)
      self.progress.emit(percent)
      elapsed = time.monotonic() - self.start_time
      rate = self.completed / elapsed if elapsed else 0
      remaining = self.total - self.completed
      eta = remaining / rate if rate else 0
      self.eta.emit(time.strftime("%H:%M:%S", time.gmtime(eta)))
      if self.completed == self.total:
          self.finished.emit({
              "converted": self.completed,
              "saved_bytes": self.orig_bytes - self.webp_bytes
          })
  \<close>
  The method runs in the worker thread of the task, and the source takes no lock around
  it (only \<open>paused\<close> is guarded, by \<open>pause_cond\<close>).

  Each of its first three statements is a read of the attribute, an addition and a write
  of the attribute (\<open>LOAD_ATTR\<close>, \<open>BINARY_OP\<close>, \<open>STORE_ATTR\<close>): six accesses to the
  controller, between any two of which another thread can run. \<open>update_point\<close> is where
  a task stands among them, before a read, or before a write together with the value it
  is about to write; \<open>counter_access orig webp p c\<close> is the access that a task at \<open>p\<close>
  makes on the controller \<open>c\<close>, and \<open>counter_updates\<close> is the six of them with no other
  thread in between.
\<close>

datatype update_point =
    ReadCompleted
  | WriteCompleted int
  | ReadOrigBytes
  | WriteOrigBytes int
  | ReadWebpBytes
  | WriteWebpBytes int
  | Updated

fun counter_access :: "int \<Rightarrow> int \<Rightarrow> update_point \<Rightarrow> controller \<Rightarrow> update_point \<times> controller" where
  "counter_access orig webp ReadCompleted c = (WriteCompleted (completed c + 1), c)"
| "counter_access orig webp (WriteCompleted v) c = (ReadOrigBytes, c\<lparr>completed := v\<rparr>)"
| "counter_access orig webp ReadOrigBytes c = (WriteOrigBytes (orig_bytes c + orig), c)"
| "counter_access orig webp (WriteOrigBytes v) c = (ReadWebpBytes, c\<lparr>orig_bytes := v\<rparr>)"
| "counter_access orig webp ReadWebpBytes c = (WriteWebpBytes (webp_bytes c + webp), c)"
| "counter_access orig webp (WriteWebpBytes v) c = (Updated, c\<lparr>webp_bytes := v\<rparr>)"
| "counter_access orig webp Updated c = (Updated, c)"

definition counter_updates :: "int \<Rightarrow> int \<Rightarrow> controller \<Rightarrow> controller" where
  "counter_updates orig webp c =
     (let (p1, c1) = counter_access orig webp ReadCompleted c;
          (p2, c2) = counter_access orig webp p1 c1;
          (p3, c3) = counter_access orig webp p2 c2;
          (p4, c4) = counter_access orig webp p3 c3;
          (p5, c5) = counter_access orig webp p4 c4;
          (p6, c6) = counter_access orig webp p5 c5
      in c6)"

text \<open>
  A thread can also lose the processor where it calls out of the controller, so the
  method is given in two parts: \<open>task_finished_count\<close>, from the first statement to the
  return of \<open>self.progress.emit\<close>, and \<open>task_finished_report\<close>, the rest, which reads the
  controller as it is by then. \<open>task_finished\<close> is the one after the other, with nothing in
  between.

  The result of the first part is the exception that leaves the method, if any, the
  controller afterwards and the signals emitted. The division by \<open>self.total\<close> raises
  \<open>ZeroDivisionError\<close> when \<open>total\<close> is 0, after the three counters have been updated
  and before any signal. \<open>percent\<close>, \<open>elapsed\<close>, \<open>rate\<close> and \<open>eta\<close> are computed in double
  precision, operation by operation; \<open>rate\<close> and \<open>eta\<close> are the integer 0 where the
  source guards the division. \<open>int\<close> truncates towards zero (\<open>py_int\<close>) and \<open>time.gmtime\<close>
  rounds down.
\<close>

definition py_int :: "rat \<Rightarrow> int" where
  "py_int x = (if x < 0 then \<lceil>x\<rceil> else \<lfloor>x\<rfloor>)"

definition task_finished_count ::
  "int \<Rightarrow> int \<Rightarrow> controller \<Rightarrow> exn option \<times> controller \<times> signal list" where
  "task_finished_count orig webp c =
     (let c1 = counter_updates orig webp c
      in if total c1 = 0 then (Some (ZeroDivisionError ''division by zero''), c1, [])
         else
           let percent = py_int (float_mul (int_truediv (completed c1) (total c1))
                                   (float_of_int 100))
           in (None, c1, [ProgressSignal percent]))"

definition task_finished_report :: "rat \<Rightarrow> controller \<Rightarrow> signal list" where
  "task_finished_report now c =
     (let elapsed = float_sub now (start_time c);
          rate = (if elapsed \<noteq> 0 then float_truediv (float_of_int (completed c)) elapsed else 0);
          remaining = total c - completed c;
          eta = (if rate \<noteq> 0 then float_truediv (float_of_int remaining) rate else 0)
      in [EtaSignal (strftime_HMS \<lfloor>eta\<rfloor>)] @
         (if completed c = total c
          then [FinishedSignal (completed c) (orig_bytes c - webp_bytes c)]
          else []))"

definition task_finished ::
  "rat \<Rightarrow> int \<Rightarrow> int \<Rightarrow> controller \<Rightarrow> exn option \<times> controller \<times> signal list" where
  "task_finished now orig webp c =
     (case task_finished_count orig webp c of
        (Some e, c1, sigs) \<Rightarrow> (Some e, c1, sigs)
      | (None, c1, sigs) \<Rightarrow> (None, c1, sigs @ task_finished_report now c1))"

text \<open>
  \<^verbatim>\<open>
  def task_error(self, msg):
      self.error.emit(msg)
  \<close>
\<close>

definition task_error :: "string \<Rightarrow> controller \<Rightarrow> controller \<times> signal list" where
  "task_error msg c = (c, [ErrorSignal msg])"

section \<open>ConvertTask\<close>

text \<open>
  What one run of a task meets outside the program: the answers of the file system, of
  the image library and of the clock, in the order in which \<open>run\<close> asks for them.
  \<^item> \<open>getsize_in p\<close>: \<open>os.path.getsize(p)\<close> on the input, a size or an exception (a size
    is never negative);
  \<^item> \<open>image_open p\<close>: \<open>Image.open(p)\<close> and \<open>img.load()\<close>, \<open>None\<close> when both succeed;
  \<^item> \<open>existing\<close>: the paths that exist when \<open>resolve_name\<close> looks;
  \<^item> \<open>image_save p\<close>: encoding to \<open>p\<close>, including the preparation of the metadata when
    they are kept, \<open>None\<close> on success;
  \<^item> \<open>getsize_out p\<close>: \<open>os.path.getsize(p)\<close> on the output, after the image is closed;
  \<^item> \<open>os_remove k\<close>: the \<open>k\<close>-th call of \<open>os.remove\<close> on the input;
  \<^item> \<open>monotonic\<close>: \<open>time.monotonic()\<close> as read by \<open>task_finished\<close>.
\<close>

record task_env =
  getsize_in :: "string \<Rightarrow> exn + nat"
  image_open :: "string \<Rightarrow> exn option"
  existing :: "string list"
  image_save :: "string \<Rightarrow> exn option"
  getsize_out :: "string \<Rightarrow> exn + nat"
  os_remove :: "nat \<Rightarrow> exn option"
  monotonic :: rat

text \<open>
  \<^verbatim>\<open>
  def save_with_metadata(self, img, img_path, output_path):
      if not img_path.lower().endswith(".png"):
          raise ValueError("Workflow requires PNG")
      ...
      img.convert("RGB").save(output_path, "webp", quality=self.quality, method=6, exif=exif)
  \<close>
  The rewriting of the workflow metadata changes what is written, not whether the call
  succeeds (its own failure is swallowed by the source); the outcome of the rest of the
  method is \<open>image_save\<close>.
\<close>

definition save_with_metadata :: "task_env \<Rightarrow> string \<Rightarrow> string \<Rightarrow> exn option" where
  "save_with_metadata env img_path output_path =
     (if \<not> endswith (lower img_path) ''.png'' then Some (ValueError ''Workflow requires PNG'')
      else image_save env output_path)"

text \<open>
  The body of the \<open>try\<close> in \<open>ConvertTask.run\<close> up to, and without, the call of
  \<open>task_finished\<close>:
  \<^verbatim>\<open>
  orig_size = os.path.getsize(self.img_path)
  with Image.open(self.img_path) as img:
      img.load()
      base = os.path.splitext(os.path.basename(self.img_path))[0]
      output_path = ctrl.resolve_name(base)
      if ctrl.keep_metadata:
          ctrl.save_with_metadata(img, self.img_path, output_path)
      else:
          img.save(output_path, "webp", quality=ctrl.quality)
  webp_size = os.path.getsize(output_path)
  if webp_size <= 0:
      raise RuntimeError("Empty WEBP")
  if ctrl.delete_originals:
      safe_remove(self.img_path)
  \<close>
  \<open>Inl e\<close>: the exception \<open>e\<close> was raised; \<open>Inr (orig_size, webp_size)\<close>: the two sizes
  that are handed to \<open>task_finished\<close>.
\<close>

definition run_convert :: "controller \<Rightarrow> string \<Rightarrow> task_env \<Rightarrow> exn + nat \<times> nat" where
  "run_convert c img_path env =
     (case getsize_in env img_path of
        Inl e \<Rightarrow> Inl e
      | Inr orig_size \<Rightarrow>
     (case image_open env img_path of
        Some e \<Rightarrow> Inl e
      | None \<Rightarrow>
     (let base = splitext_root (os_path_basename img_path);
          output_path = resolve_name (existing env) (output_dir c) base
      in
     (case (if keep_metadata c then save_with_metadata env img_path output_path
            else image_save env output_path) of
        Some e \<Rightarrow> Inl e
      | None \<Rightarrow>
     (case getsize_out env output_path of
        Inl e \<Rightarrow> Inl e
      | Inr webp_size \<Rightarrow>
          if int webp_size \<le> 0 then Inl (RuntimeError ''Empty WEBP'')
          else
     (case (if delete_originals c then fst (safe_remove (os_remove env) img_path 3)
            else Inr ()) of
        Inl e \<Rightarrow> Inl e
      | Inr u \<Rightarrow> Inr (orig_size, webp_size)))))))"

text \<open>
  The message of the \<open>except\<close> clause:
  \<^verbatim>\<open>f"{os.path.basename(self.img_path)} -> {e}"\<close> with the arrow U+2192.
\<close>

definition error_message :: "string \<Rightarrow> exn \<Rightarrow> string" where
  "error_message img_path e = os_path_basename img_path @ '' '' @ arrow @ '' '' @ str_exn e"

text \<open>
  How a task stands: submitted to the pool and not yet past its checkpoint (\<open>Queued\<close>,
  which includes waiting in \<open>pause_cond.wait()\<close>), past it and at work (\<open>Converting\<close>),
  returned at the checkpoint because the job was cancelled (\<open>Skipped\<close>), inside
  \<open>task_finished\<close> on the two sizes with the first part done (\<open>Reporting\<close>), returned
  from \<open>task_finished\<close> (\<open>Succeeded\<close>), ended in the \<open>except\<close> clause (\<open>Failed\<close>).
\<close>

datatype task_status =
  Queued | Converting | Skipped | Reporting nat nat | Succeeded nat nat | Failed

text \<open>
  The whole \<open>try\<close> statement of \<open>run\<close>:
  \<^verbatim>\<open>
  try:
      ...
      ctrl.task_finished(orig_size, webp_size)
  except Exception as e:
      ctrl.task_error(f"{os.path.basename(self.img_path)} -> {e}")
  \<close>
  It returns how the task ended, the controller afterwards and the signals emitted. The
  call of \<open>task_finished\<close> stands inside the \<open>try\<close>, so an exception of its own is
  reported like any other, after the counters have been updated.
\<close>

definition run_body ::
  "controller \<Rightarrow> string \<Rightarrow> task_env \<Rightarrow> task_status \<times> controller \<times> signal list" where
  "run_body c img_path env =
     (case run_convert c img_path env of
        Inl e \<Rightarrow>
          (let (c', sigs) = task_error (error_message img_path e) c in (Failed, c', sigs))
      | Inr (orig_size, webp_size) \<Rightarrow>
          (case task_finished (monotonic env) (int orig_size) (int webp_size) c of
             (None, c1, sigs) \<Rightarrow> (Succeeded orig_size webp_size, c1, sigs)
           | (Some e, c1, sigs) \<Rightarrow>
               (let (c', sigs') = task_error (error_message img_path e) c1
                in (Failed, c', sigs @ sigs'))))"

text \<open>
  The \<open>try\<close> statement up to the return of \<open>self.progress.emit\<close> inside
  \<open>task_finished\<close>: the task has failed, with the error signalled, or it is
  \<open>Reporting\<close>, with the counters updated and the progress signalled.
\<close>

definition run_count ::
  "controller \<Rightarrow> string \<Rightarrow> task_env \<Rightarrow> task_status \<times> controller \<times> signal list" where
  "run_count c img_path env =
     (case run_convert c img_path env of
        Inl e \<Rightarrow>
          (let (c', sigs) = task_error (error_message img_path e) c in (Failed, c', sigs))
      | Inr (orig_size, webp_size) \<Rightarrow>
          (case task_finished_count (int orig_size) (int webp_size) c of
             (None, c1, sigs) \<Rightarrow> (Reporting orig_size webp_size, c1, sigs)
           | (Some e, c1, sigs) \<Rightarrow>
               (let (c', sigs') = task_error (error_message img_path e) c1
                in (Failed, c', sigs @ sigs'))))"

text \<open>
  The head of \<open>run\<close>:
  \<^verbatim>\<open>
  with ctrl.pause_cond:
      while ctrl.paused:
          ctrl.pause_cond.wait()
  if ctrl.cancelled:
      return
  \<close>
  on the controller as it is when the task looks at it: \<open>Waiting\<close> while \<open>paused\<close> is
  set (the loop goes on), otherwise \<open>Abort\<close> when \<open>cancelled\<close> is set and \<open>Proceed\<close>
  when it is not.
\<close>

datatype gate = Waiting | Abort | Proceed

definition run_checkpoint :: "controller \<Rightarrow> gate" where
  "run_checkpoint c = (if paused c then Waiting else if cancelled c then Abort else Proceed)"

text \<open>
  \<open>ConvertTask.run\<close> when nothing else touches the controller in between: \<open>None\<close> as
  long as the task waits.
\<close>

definition ConvertTask_run ::
  "controller \<Rightarrow> string \<Rightarrow> task_env \<Rightarrow> (task_status \<times> controller \<times> signal list) option" where
  "ConvertTask_run c img_path env =
     (case run_checkpoint c of
        Waiting \<Rightarrow> None
      | Abort \<Rightarrow> Some (Skipped, c, [])
      | Proceed \<Rightarrow> Some (run_body c img_path env))"

section \<open>A job and its interleavings\<close>

text \<open>
  A job is one controller on which \<open>start()\<close> is called once, as
  \<open>ImageConverter.start\<close> does. \<open>pending\<close> holds the files that the \<open>for\<close> loop of
  \<open>start()\<close> has not reached yet, \<open>tasks\<close> the tasks handed to the pool in the order of
  \<open>pool.start\<close>, each with its file and status, and \<open>emitted\<close> the signals emitted so far.
\<close>

record system =
  ctrl :: controller
  pending :: "string list"
  tasks :: "(string \<times> task_status) list"
  emitted :: "signal list"

definition new_job ::
  "string list \<Rightarrow> string \<Rightarrow> int \<Rightarrow> bool \<Rightarrow> bool \<Rightarrow> int \<Rightarrow> rat \<Rightarrow> system" where
  "new_job fs out q keep del max_workers now =
     \<lparr> ctrl = JobController_init fs out q keep del max_workers now,
       pending = fs, tasks = [], emitted = [] \<rparr>"

text \<open>
  One iteration of
  \<^verbatim>\<open>
  def start(self):
      for f in self.files:
          if self.cancelled:
              break
          self.pool.start(ConvertTask(self, f))
  \<close>
  \<open>None\<close> when the loop is over.
\<close>

definition start_iteration :: "system \<Rightarrow> system option" where
  "start_iteration s =
     (case pending s of
        [] \<Rightarrow> None
      | f # fs \<Rightarrow>
          if cancelled (ctrl s) then Some (s\<lparr>pending := []\<rparr>)
          else Some (s\<lparr>pending := fs, tasks := tasks s @ [(f, Queued)]\<rparr>))"

text \<open>
  \<open>start()\<close> when nothing else runs before it returns: the loop over \<open>self.files\<close>, to
  its end.
\<close>

fun start_loop :: "string list \<Rightarrow> system \<Rightarrow> system" where
  "start_loop [] s = s\<lparr>pending := []\<rparr>"
| "start_loop (f # fs) s =
     (if cancelled (ctrl s) then s\<lparr>pending := []\<rparr>
      else start_loop fs (s\<lparr>pending := fs, tasks := tasks s @ [(f, Queued)]\<rparr>))"

definition start :: "system \<Rightarrow> system" where
  "start s = start_loop (files (ctrl s)) s"

text \<open>
  The steps that the threads of the program take, in any order: an iteration of the loop
  of \<open>start()\<close>; the calls \<open>pause()\<close>, \<open>resume()\<close> and \<open>cancel()\<close>; task number \<open>i\<close>
  leaving the head of \<open>run\<close> (not possible while the job is paused); task number \<open>i\<close>
  running its \<open>try\<close> statement in the environment \<open>env\<close>, either up to the return of
  \<open>self.progress.emit\<close> (\<open>Count\<close>), to be followed by the rest of \<open>task_finished\<close> at
  the clock reading given (\<open>Report\<close>), or to its end without another thread in between
  (\<open>Complete\<close>). A step that is not possible in a state is \<open>None\<close>. The pool's limit on
  running threads only removes interleavings, so it is left out. \<open>Count\<close> and \<open>Complete\<close>
  make the six accesses at the head of \<open>task_finished\<close> with no other thread in between;
  what happens when the accesses of several tasks interleave is the subject of a section
  of its own, on \<open>counter_access\<close>.
\<close>

datatype action =
    StartIteration
  | Pause
  | Resume
  | Cancel
  | Checkpoint nat
  | Count nat task_env
  | Report nat rat
  | Complete nat task_env

text \<open>The sizes with which a task is inside \<open>task_finished\<close>, if it is.\<close>

fun reporting_sizes :: "task_status \<Rightarrow> (nat \<times> nat) option" where
  "reporting_sizes (Reporting a b) = Some (a, b)"
| "reporting_sizes st = None"

fun step :: "action \<Rightarrow> system \<Rightarrow> system option" where
  "step StartIteration s = start_iteration s"
| "step Pause s = Some (s\<lparr>ctrl := pause (ctrl s)\<rparr>)"
| "step Resume s = Some (s\<lparr>ctrl := resume (ctrl s)\<rparr>)"
| "step Cancel s = Some (s\<lparr>ctrl := cancel (ctrl s)\<rparr>)"
| "step (Checkpoint i) s =
     (if i < length (tasks s) \<and> snd (tasks s ! i) = Queued
      then (case run_checkpoint (ctrl s) of
              Waiting \<Rightarrow> None
            | Abort \<Rightarrow> Some (s\<lparr>tasks := (tasks s)[i := (fst (tasks s ! i), Skipped)]\<rparr>)
            | Proceed \<Rightarrow> Some (s\<lparr>tasks := (tasks s)[i := (fst (tasks s ! i), Converting)]\<rparr>))
      else None)"
| "step (Count i env) s =
     (if i < length (tasks s) \<and> snd (tasks s ! i) = Converting
      then (let (st, c, sigs) = run_count (ctrl s) (fst (tasks s ! i)) env
            in Some (s\<lparr>ctrl := c, tasks := (tasks s)[i := (fst (tasks s ! i), st)],
                      emitted := emitted s @ sigs\<rparr>))
      else None)"
| "step (Report i now) s =
     (if i < length (tasks s)
      then (case reporting_sizes (snd (tasks s ! i)) of
              None \<Rightarrow> None
            | Some (a, b) \<Rightarrow>
                Some (s\<lparr>tasks := (tasks s)[i := (fst (tasks s ! i), Succeeded a b)],
                        emitted := emitted s @ task_finished_report now (ctrl s)\<rparr>))
      else None)"
| "step (Complete i env) s =
     (if i < length (tasks s) \<and> snd (tasks s ! i) = Converting
      then (let (st, c, sigs) = run_body (ctrl s) (fst (tasks s ! i)) env
            in Some (s\<lparr>ctrl := c, tasks := (tasks s)[i := (fst (tasks s ! i), st)],
                      emitted := emitted s @ sigs\<rparr>))
      else None)"

fun exec :: "action list \<Rightarrow> system \<Rightarrow> system option" where
  "exec [] s = Some s"
| "exec (a # as) s = (case step a s of None \<Rightarrow> None | Some s' \<Rightarrow> exec as s')"

section \<open>What the tasks have reported\<close>

text \<open>
  The number of tasks that have run the first part of \<open>task_finished\<close> and the sums of
  the sizes they handed to it, read off the statuses.
\<close>

fun counts_one :: "task_status \<Rightarrow> nat" where
  "counts_one (Reporting a b) = 1"
| "counts_one (Succeeded a b) = 1"
| "counts_one st = 0"

fun orig_of :: "task_status \<Rightarrow> nat" where
  "orig_of (Reporting a b) = a"
| "orig_of (Succeeded a b) = a"
| "orig_of st = 0"

fun webp_of :: "task_status \<Rightarrow> nat" where
  "webp_of (Reporting a b) = b"
| "webp_of (Succeeded a b) = b"
| "webp_of st = 0"

definition n_counted :: "(string \<times> task_status) list \<Rightarrow> nat" where
  "n_counted ts = sum_list (map (\<lambda>t. counts_one (snd t)) ts)"

definition sum_orig :: "(string \<times> task_status) list \<Rightarrow> nat" where
  "sum_orig ts = sum_list (map (\<lambda>t. orig_of (snd t)) ts)"

definition sum_webp :: "(string \<times> task_status) list \<Rightarrow> nat" where
  "sum_webp ts = sum_list (map (\<lambda>t. webp_of (snd t)) ts)"

fun is_finished :: "signal \<Rightarrow> bool" where
  "is_finished (FinishedSignal a b) = True"
| "is_finished sg = False"

text \<open>
  What the steps above keep true of a job: the loop of \<open>start()\<close> hands out at most one
  task per file, and the three counters are exactly what the tasks that reached
  \<open>task_finished\<close> handed to it, each once.
\<close>

definition job_inv :: "system \<Rightarrow> bool" where
  "job_inv s =
     (int (length (tasks s) + length (pending s)) \<le> total (ctrl s) \<and>
      completed (ctrl s) = int (n_counted (tasks s)) \<and>
      orig_bytes (ctrl s) = int (sum_orig (tasks s)) \<and>
      webp_bytes (ctrl s) = int (sum_webp (tasks s)))"

text \<open>An environment in which every call succeeds, with the two sizes and the clock given.\<close>

definition sample_env :: "nat \<Rightarrow> nat \<Rightarrow> rat \<Rightarrow> task_env" where
  "sample_env orig webp now =
     \<lparr> getsize_in = (\<lambda>p. Inr orig), image_open = (\<lambda>p. None), existing = [],
       image_save = (\<lambda>p. None), getsize_out = (\<lambda>p. Inr webp),
       os_remove = (\<lambda>k. None), monotonic = now \<rparr>"

section \<open>The counters when the accesses of a task are not interleaved\<close>

lemma sum_list_map_update:
  fixes g :: "'a \<Rightarrow> nat"
  shows "i < length xs \<Longrightarrow> g (xs ! i) = 0 \<Longrightarrow>
    sum_list (map g (xs[i := y])) = sum_list (map g xs) + g y"
  by (simp add: map_update sum_list_update)

lemma sum_list_map_same:
  fixes g :: "'a \<Rightarrow> nat"
  shows "i < length xs \<Longrightarrow> g y = g (xs ! i) \<Longrightarrow>
    sum_list (map g (xs[i := y])) = sum_list (map g xs)"
proof -
  assume i: "i < length xs" and g: "g y = g (xs ! i)"
  from i have "(map g xs)[i := g (xs ! i)] = map g xs"
    by (simp add: list_update_same_conv)
  with g show ?thesis by (simp add: map_update)
qed

lemma sum_list_map_le_length:
  fixes g :: "'a \<Rightarrow> nat"
  shows "(\<And>x. g x \<le> 1) \<Longrightarrow> sum_list (map g xs) \<le> length xs"
proof (induction xs)
  case Nil then show ?case by simp
next
  case (Cons x xs)
  have "g x \<le> 1" by (rule Cons.prems)
  moreover have "sum_list (map g xs) \<le> length xs" using Cons by simp
  ultimately show ?case by simp
qed

lemma counts_one_le: "counts_one st \<le> 1"
  by (cases st) simp_all

lemma n_counted_le: "n_counted ts \<le> length ts"
  unfolding n_counted_def by (rule sum_list_map_le_length) (rule counts_one_le)

lemma n_counted_full:
  "n_counted ts = length ts \<Longrightarrow> i < length ts \<Longrightarrow> counts_one (snd (ts ! i)) = 1"
proof (induction ts arbitrary: i)
  case Nil then show ?case by simp
next
  case (Cons t ts)
  have a: "counts_one (snd t) \<le> 1" by (rule counts_one_le)
  have b: "n_counted ts \<le> length ts" by (rule n_counted_le)
  from Cons.prems(1) have c: "counts_one (snd t) + n_counted ts = Suc (length ts)"
    by (simp add: n_counted_def)
  from a b c have d: "counts_one (snd t) = 1" and e: "n_counted ts = length ts" by simp_all
  show ?case
  proof (cases i)
    case 0 with d show ?thesis by simp
  next
    case (Suc j)
    with Cons.prems(2) have "j < length ts" by simp
    from Cons.IH [OF e this] Suc show ?thesis by simp
  qed
qed

lemma converting_not_full:
  "i < length ts \<Longrightarrow> snd (ts ! i) = Converting \<Longrightarrow> n_counted ts < length ts"
proof -
  assume i: "i < length ts" and c: "snd (ts ! i) = Converting"
  have "n_counted ts \<noteq> length ts"
  proof
    assume "n_counted ts = length ts"
    from n_counted_full [OF this i] c show False by simp
  qed
  with n_counted_le [of ts] show ?thesis by simp
qed

lemma counter_updates_result:
  "counter_updates orig webp c =
     c\<lparr>completed := completed c + 1, orig_bytes := orig_bytes c + orig,
       webp_bytes := webp_bytes c + webp\<rparr>"
  by (simp add: counter_updates_def)

lemma task_finished_count_result:
  "total c \<noteq> 0 \<Longrightarrow>
   \<exists>p. task_finished_count orig webp c =
     (None,
      c\<lparr>completed := completed c + 1, orig_bytes := orig_bytes c + orig,
        webp_bytes := webp_bytes c + webp\<rparr>,
      [ProgressSignal p])"
  by (simp add: task_finished_count_def counter_updates_result Let_def)

lemma run_convert_sizes: "run_convert c img_path env = Inr (a, b) \<Longrightarrow> 0 < b"
  by (auto simp: run_convert_def Let_def split: sum.splits option.splits if_splits)

lemma run_count_failed:
  "run_convert c img_path env = Inl e \<Longrightarrow>
   run_count c img_path env = (Failed, c, [ErrorSignal (error_message img_path e)])"
  by (simp add: run_count_def task_error_def)

lemma run_count_counted:
  "run_convert c img_path env = Inr (a, b) \<Longrightarrow> total c \<noteq> 0 \<Longrightarrow>
   \<exists>p. run_count c img_path env =
     (Reporting a b,
      c\<lparr>completed := completed c + 1, orig_bytes := orig_bytes c + int a,
        webp_bytes := webp_bytes c + int b\<rparr>,
      [ProgressSignal p])"
proof -
  assume r: "run_convert c img_path env = Inr (a, b)" and t: "total c \<noteq> 0"
  from task_finished_count_result [OF t, of "int a" "int b"]
  obtain p where "task_finished_count (int a) (int b) c =
     (None,
      c\<lparr>completed := completed c + 1, orig_bytes := orig_bytes c + int a,
        webp_bytes := webp_bytes c + int b\<rparr>,
      [ProgressSignal p])" by blast
  with r show ?thesis by (simp add: run_count_def)
qed

text \<open>The whole \<open>try\<close> statement is its first part followed by the rest of \<open>task_finished\<close>.\<close>

lemma run_body_split:
  "run_body c img_path env =
     (case run_count c img_path env of
        (Reporting a b, c1, sigs) \<Rightarrow>
          (Succeeded a b, c1, sigs @ task_finished_report (monotonic env) c1)
      | (st, c1, sigs) \<Rightarrow> (st, c1, sigs))"
  by (auto simp: run_body_def run_count_def task_finished_def task_error_def
      split: sum.splits prod.splits option.splits)

lemma run_body_failed:
  "run_convert c img_path env = Inl e \<Longrightarrow>
   run_body c img_path env = (Failed, c, [ErrorSignal (error_message img_path e)])"
  by (simp add: run_body_def task_error_def)

lemma run_body_succeeded:
  "run_convert c img_path env = Inr (a, b) \<Longrightarrow> total c \<noteq> 0 \<Longrightarrow>
   \<exists>p. run_body c img_path env =
     (Succeeded a b,
      c\<lparr>completed := completed c + 1, orig_bytes := orig_bytes c + int a,
        webp_bytes := webp_bytes c + int b\<rparr>,
      ProgressSignal p #
      task_finished_report (monotonic env)
        (c\<lparr>completed := completed c + 1, orig_bytes := orig_bytes c + int a,
           webp_bytes := webp_bytes c + int b\<rparr>))"
proof -
  assume r: "run_convert c img_path env = Inr (a, b)" and t: "total c \<noteq> 0"
  from run_count_counted [OF r t] obtain p where
    "run_count c img_path env =
     (Reporting a b,
      c\<lparr>completed := completed c + 1, orig_bytes := orig_bytes c + int a,
        webp_bytes := webp_bytes c + int b\<rparr>,
      [ProgressSignal p])" by blast
  then show ?thesis by (simp add: run_body_split)
qed

lemma task_finished_report_result:
  "\<exists>t. task_finished_report now c =
     EtaSignal t #
     (if completed c = total c
      then [FinishedSignal (completed c) (orig_bytes c - webp_bytes c)]
      else [])"
  by (simp add: task_finished_report_def Let_def)

lemma job_inv_new: "job_inv (new_job fs out q keep del w now)"
  by (simp add: job_inv_def new_job_def JobController_init_def n_counted_def sum_orig_def
      sum_webp_def)

lemma job_inv_start_iteration: "job_inv s \<Longrightarrow> start_iteration s = Some s' \<Longrightarrow> job_inv s'"
  by (auto simp: job_inv_def start_iteration_def n_counted_def sum_orig_def sum_webp_def
      split: list.splits if_splits)

lemma job_inv_flags:
  "job_inv s \<Longrightarrow> job_inv (s\<lparr>ctrl := pause (ctrl s)\<rparr>)"
  "job_inv s \<Longrightarrow> job_inv (s\<lparr>ctrl := resume (ctrl s)\<rparr>)"
  "job_inv s \<Longrightarrow> job_inv (s\<lparr>ctrl := cancel (ctrl s)\<rparr>)"
  by (simp_all add: job_inv_def pause_def resume_def cancel_def)

lemma job_inv_status:
  "job_inv s \<Longrightarrow> i < length (tasks s) \<Longrightarrow>
   counts_one st = counts_one (snd (tasks s ! i)) \<Longrightarrow>
   orig_of st = orig_of (snd (tasks s ! i)) \<Longrightarrow>
   webp_of st = webp_of (snd (tasks s ! i)) \<Longrightarrow>
   job_inv (s\<lparr>tasks := (tasks s)[i := (f, st)], emitted := sigs\<rparr>)"
  by (simp add: job_inv_def n_counted_def sum_orig_def sum_webp_def sum_list_map_same)

lemma job_inv_checkpoint: "job_inv s \<Longrightarrow> step (Checkpoint i) s = Some s' \<Longrightarrow> job_inv s'"
proof -
  assume inv: "job_inv s" and st: "step (Checkpoint i) s = Some s'"
  from st have i: "i < length (tasks s)" and q: "snd (tasks s ! i) = Queued"
    by (auto split: if_splits)
  from st i q consider
    "s' = s\<lparr>tasks := (tasks s)[i := (fst (tasks s ! i), Skipped)]\<rparr>"
    | "s' = s\<lparr>tasks := (tasks s)[i := (fst (tasks s ! i), Converting)]\<rparr>"
    by (auto split: gate.splits)
  then show ?thesis
  proof cases
    case 1
    from job_inv_status [OF inv i, where st = Skipped and f = "fst (tasks s ! i)" and sigs = "emitted s"] q 1
    show ?thesis by simp
  next
    case 2
    from job_inv_status [OF inv i, where st = Converting and f = "fst (tasks s ! i)" and sigs = "emitted s"] q 2
    show ?thesis by simp
  qed
qed

lemma step_count_cases:
  assumes inv: "job_inv s" and st: "step (Count i env) s = Some s'"
  shows "i < length (tasks s) \<and> snd (tasks s ! i) = Converting \<and>
    completed (ctrl s) < total (ctrl s) \<and>
    ((\<exists>e. run_convert (ctrl s) (fst (tasks s ! i)) env = Inl e \<and>
        s' = s\<lparr>ctrl := ctrl s, tasks := (tasks s)[i := (fst (tasks s ! i), Failed)],
               emitted := emitted s @ [ErrorSignal (error_message (fst (tasks s ! i)) e)]\<rparr>) \<or>
     (\<exists>a b p. run_convert (ctrl s) (fst (tasks s ! i)) env = Inr (a, b) \<and> 0 < b \<and>
        s' = s\<lparr>ctrl := (ctrl s)\<lparr>completed := completed (ctrl s) + 1,
                    orig_bytes := orig_bytes (ctrl s) + int a,
                    webp_bytes := webp_bytes (ctrl s) + int b\<rparr>,
               tasks := (tasks s)[i := (fst (tasks s ! i), Reporting a b)],
               emitted := emitted s @ [ProgressSignal p]\<rparr>))"
proof -
  from st have i: "i < length (tasks s)" and c: "snd (tasks s ! i) = Converting"
    by (auto split: if_splits)
  let ?f = "fst (tasks s ! i)"
  from st i c have s': "s' = (let (st, c, sigs) = run_count (ctrl s) ?f env
      in s\<lparr>ctrl := c, tasks := (tasks s)[i := (?f, st)], emitted := emitted s @ sigs\<rparr>)"
    by (simp add: Let_def split: prod.splits)
  from converting_not_full [OF i c] inv have lt: "completed (ctrl s) < total (ctrl s)"
    by (simp add: job_inv_def)
  from inv have "0 \<le> completed (ctrl s)" by (simp add: job_inv_def)
  with lt have nz: "total (ctrl s) \<noteq> 0" by simp
  show ?thesis
  proof (cases "run_convert (ctrl s) ?f env")
    case (Inl e)
    from run_count_failed [OF Inl] s' i c lt Inl show ?thesis by simp
  next
    case (Inr ab)
    obtain a b where ab: "ab = (a, b)" by (cases ab)
    from Inr ab have r: "run_convert (ctrl s) ?f env = Inr (a, b)" by simp
    from run_convert_sizes [OF r] have b: "0 < b" .
    from run_count_counted [OF r nz] obtain p where
      "run_count (ctrl s) ?f env =
       (Reporting a b,
        (ctrl s)\<lparr>completed := completed (ctrl s) + 1,
          orig_bytes := orig_bytes (ctrl s) + int a,
          webp_bytes := webp_bytes (ctrl s) + int b\<rparr>,
        [ProgressSignal p])" by blast
    with s' have "s' = s\<lparr>ctrl := (ctrl s)\<lparr>completed := completed (ctrl s) + 1,
                    orig_bytes := orig_bytes (ctrl s) + int a,
                    webp_bytes := webp_bytes (ctrl s) + int b\<rparr>,
               tasks := (tasks s)[i := (?f, Reporting a b)],
               emitted := emitted s @ [ProgressSignal p]\<rparr>" by simp
    with i c lt r b show ?thesis by blast
  qed
qed

lemma step_report_cases:
  assumes st: "step (Report i now) s = Some s'"
  shows "i < length (tasks s) \<and>
    (\<exists>a b. snd (tasks s ! i) = Reporting a b \<and>
       s' = s\<lparr>tasks := (tasks s)[i := (fst (tasks s ! i), Succeeded a b)],
              emitted := emitted s @ task_finished_report now (ctrl s)\<rparr>)"
proof -
  from st have i: "i < length (tasks s)" by (auto split: if_splits)
  from st i obtain a b where r: "reporting_sizes (snd (tasks s ! i)) = Some (a, b)"
    by (auto split: option.splits)
  then have "snd (tasks s ! i) = Reporting a b"
    by (cases "snd (tasks s ! i)") simp_all
  with st i r show ?thesis by simp
qed

lemma step_complete_cases:
  assumes inv: "job_inv s" and st: "step (Complete i env) s = Some s'"
  shows "i < length (tasks s) \<and> snd (tasks s ! i) = Converting \<and>
    completed (ctrl s) < total (ctrl s) \<and>
    ((\<exists>e. run_convert (ctrl s) (fst (tasks s ! i)) env = Inl e \<and>
        s' = s\<lparr>ctrl := ctrl s, tasks := (tasks s)[i := (fst (tasks s ! i), Failed)],
               emitted := emitted s @ [ErrorSignal (error_message (fst (tasks s ! i)) e)]\<rparr>) \<or>
     (\<exists>a b p. run_convert (ctrl s) (fst (tasks s ! i)) env = Inr (a, b) \<and> 0 < b \<and>
        s' = s\<lparr>ctrl := (ctrl s)\<lparr>completed := completed (ctrl s) + 1,
                    orig_bytes := orig_bytes (ctrl s) + int a,
                    webp_bytes := webp_bytes (ctrl s) + int b\<rparr>,
               tasks := (tasks s)[i := (fst (tasks s ! i), Succeeded a b)],
               emitted := emitted s @ ProgressSignal p #
                 task_finished_report (monotonic env)
                   ((ctrl s)\<lparr>completed := completed (ctrl s) + 1,
                      orig_bytes := orig_bytes (ctrl s) + int a,
                      webp_bytes := webp_bytes (ctrl s) + int b\<rparr>)\<rparr>))"
proof -
  from st have i: "i < length (tasks s)" and c: "snd (tasks s ! i) = Converting"
    by (auto split: if_splits)
  let ?f = "fst (tasks s ! i)"
  from st i c have s': "s' = (let (st, c, sigs) = run_body (ctrl s) ?f env
      in s\<lparr>ctrl := c, tasks := (tasks s)[i := (?f, st)], emitted := emitted s @ sigs\<rparr>)"
    by (simp add: Let_def split: prod.splits)
  from converting_not_full [OF i c] inv have lt: "completed (ctrl s) < total (ctrl s)"
    by (simp add: job_inv_def)
  from inv have "0 \<le> completed (ctrl s)" by (simp add: job_inv_def)
  with lt have nz: "total (ctrl s) \<noteq> 0" by simp
  show ?thesis
  proof (cases "run_convert (ctrl s) ?f env")
    case (Inl e)
    from run_body_failed [OF Inl] s' i c lt Inl show ?thesis by simp
  next
    case (Inr ab)
    obtain a b where ab: "ab = (a, b)" by (cases ab)
    from Inr ab have r: "run_convert (ctrl s) ?f env = Inr (a, b)" by simp
    from run_convert_sizes [OF r] have b: "0 < b" .
    from run_body_succeeded [OF r nz] obtain p where
      "run_body (ctrl s) ?f env =
       (Succeeded a b,
        (ctrl s)\<lparr>completed := completed (ctrl s) + 1,
          orig_bytes := orig_bytes (ctrl s) + int a,
          webp_bytes := webp_bytes (ctrl s) + int b\<rparr>,
        ProgressSignal p #
        task_finished_report (monotonic env)
          ((ctrl s)\<lparr>completed := completed (ctrl s) + 1,
             orig_bytes := orig_bytes (ctrl s) + int a,
             webp_bytes := webp_bytes (ctrl s) + int b\<rparr>))" by blast
    with s' have "s' = s\<lparr>ctrl := (ctrl s)\<lparr>completed := completed (ctrl s) + 1,
                    orig_bytes := orig_bytes (ctrl s) + int a,
                    webp_bytes := webp_bytes (ctrl s) + int b\<rparr>,
               tasks := (tasks s)[i := (?f, Succeeded a b)],
               emitted := emitted s @ ProgressSignal p #
                 task_finished_report (monotonic env)
                   ((ctrl s)\<lparr>completed := completed (ctrl s) + 1,
                      orig_bytes := orig_bytes (ctrl s) + int a,
                      webp_bytes := webp_bytes (ctrl s) + int b\<rparr>)\<rparr>" by simp
    with i c lt r b show ?thesis by blast
  qed
qed

lemma job_inv_count:
  assumes inv: "job_inv s" and st: "step (Count i env) s = Some s'"
  shows "job_inv s'"
proof -
  from step_count_cases [OF inv st] have i: "i < length (tasks s)"
    and c: "snd (tasks s ! i) = Converting" by simp_all
  from c have z: "counts_one (snd (tasks s ! i)) = 0" "orig_of (snd (tasks s ! i)) = 0"
    "webp_of (snd (tasks s ! i)) = 0" by simp_all
  from step_count_cases [OF inv st] consider
    (failed) e where "s' = s\<lparr>ctrl := ctrl s,
        tasks := (tasks s)[i := (fst (tasks s ! i), Failed)],
        emitted := emitted s @ [ErrorSignal (error_message (fst (tasks s ! i)) e)]\<rparr>"
    | (counted) a b p where "s' = s\<lparr>ctrl := (ctrl s)\<lparr>completed := completed (ctrl s) + 1,
                    orig_bytes := orig_bytes (ctrl s) + int a,
                    webp_bytes := webp_bytes (ctrl s) + int b\<rparr>,
               tasks := (tasks s)[i := (fst (tasks s ! i), Reporting a b)],
               emitted := emitted s @ [ProgressSignal p]\<rparr>"
    by blast
  then show ?thesis
  proof cases
    case failed
    with inv i z show ?thesis
      by (simp add: job_inv_def n_counted_def sum_orig_def sum_webp_def sum_list_map_update)
  next
    case counted
    with inv i z show ?thesis
      by (simp add: job_inv_def n_counted_def sum_orig_def sum_webp_def sum_list_map_update)
  qed
qed

lemma job_inv_report:
  assumes inv: "job_inv s" and st: "step (Report i now) s = Some s'"
  shows "job_inv s'"
proof -
  from step_report_cases [OF st] obtain a b where i: "i < length (tasks s)"
    and r: "snd (tasks s ! i) = Reporting a b"
    and s': "s' = s\<lparr>tasks := (tasks s)[i := (fst (tasks s ! i), Succeeded a b)],
              emitted := emitted s @ task_finished_report now (ctrl s)\<rparr>" by blast
  from job_inv_status [OF inv i, where st = "Succeeded a b" and f = "fst (tasks s ! i)"
      and sigs = "emitted s @ task_finished_report now (ctrl s)"] r s'
  show ?thesis by simp
qed

lemma job_inv_complete:
  assumes inv: "job_inv s" and st: "step (Complete i env) s = Some s'"
  shows "job_inv s'"
proof -
  from step_complete_cases [OF inv st] have i: "i < length (tasks s)"
    and c: "snd (tasks s ! i) = Converting" by simp_all
  from c have z: "counts_one (snd (tasks s ! i)) = 0" "orig_of (snd (tasks s ! i)) = 0"
    "webp_of (snd (tasks s ! i)) = 0" by simp_all
  from step_complete_cases [OF inv st] consider
    (failed) e where "s' = s\<lparr>ctrl := ctrl s,
        tasks := (tasks s)[i := (fst (tasks s ! i), Failed)],
        emitted := emitted s @ [ErrorSignal (error_message (fst (tasks s ! i)) e)]\<rparr>"
    | (succeeded) a b sigs where "s' = s\<lparr>ctrl := (ctrl s)\<lparr>completed := completed (ctrl s) + 1,
                    orig_bytes := orig_bytes (ctrl s) + int a,
                    webp_bytes := webp_bytes (ctrl s) + int b\<rparr>,
               tasks := (tasks s)[i := (fst (tasks s ! i), Succeeded a b)],
               emitted := emitted s @ sigs\<rparr>"
    by blast
  then show ?thesis
  proof cases
    case failed
    with inv i z show ?thesis
      by (simp add: job_inv_def n_counted_def sum_orig_def sum_webp_def sum_list_map_update)
  next
    case succeeded
    with inv i z show ?thesis
      by (simp add: job_inv_def n_counted_def sum_orig_def sum_webp_def sum_list_map_update)
  qed
qed

lemma job_inv_step: "job_inv s \<Longrightarrow> step a s = Some s' \<Longrightarrow> job_inv s'"
proof (cases a)
  case StartIteration
  assume "job_inv s" "step a s = Some s'"
  with StartIteration show ?thesis by (simp add: job_inv_start_iteration)
next
  case Pause
  assume "job_inv s" "step a s = Some s'"
  with Pause show ?thesis by (auto simp: job_inv_flags)
next
  case Resume
  assume "job_inv s" "step a s = Some s'"
  with Resume show ?thesis by (auto simp: job_inv_flags)
next
  case Cancel
  assume "job_inv s" "step a s = Some s'"
  with Cancel show ?thesis by (auto simp: job_inv_flags)
next
  case (Checkpoint i)
  assume "job_inv s" "step a s = Some s'"
  with Checkpoint show ?thesis by (simp only: job_inv_checkpoint)
next
  case (Count i env)
  assume "job_inv s" "step a s = Some s'"
  with Count show ?thesis by (simp only: job_inv_count)
next
  case (Report i now)
  assume "job_inv s" "step a s = Some s'"
  with Report show ?thesis by (simp only: job_inv_report)
next
  case (Complete i env)
  assume "job_inv s" "step a s = Some s'"
  with Complete show ?thesis by (simp only: job_inv_complete)
qed

lemma job_inv_exec: "job_inv s \<Longrightarrow> exec as s = Some s' \<Longrightarrow> job_inv s'"
proof (induction as arbitrary: s)
  case Nil
  then show ?case by simp
next
  case (Cons a as)
  from Cons.prems(2) obtain s1 where s1: "step a s = Some s1" and e: "exec as s1 = Some s'"
    by (auto split: option.splits)
  from job_inv_step [OF Cons.prems(1) s1] have "job_inv s1" .
  from Cons.IH [OF this e] show ?case .
qed

lemma task_finished_count_total:
  "task_finished_count orig webp c = (r, c', sigs) \<Longrightarrow> total c' = total c"
  by (auto simp: task_finished_count_def counter_updates_result Let_def split: if_splits)

lemma run_count_total: "run_count c img_path env = (st, c', sigs) \<Longrightarrow> total c' = total c"
  by (auto simp: run_count_def task_error_def dest: task_finished_count_total
      split: sum.splits prod.splits option.splits)

lemma run_body_total: "run_body c img_path env = (st, c', sigs) \<Longrightarrow> total c' = total c"
  by (auto simp: run_body_def task_finished_def task_error_def
      dest: task_finished_count_total split: sum.splits prod.splits option.splits)

lemma step_total: "step a s = Some s' \<Longrightarrow> total (ctrl s') = total (ctrl s)"
proof (cases a)
  case (Complete i env)
  assume "step a s = Some s'"
  with Complete show ?thesis
    by (auto simp: Let_def dest: run_body_total split: if_splits prod.splits)
next
  case (Count i env)
  assume "step a s = Some s'"
  with Count show ?thesis
    by (auto simp: Let_def dest: run_count_total split: if_splits prod.splits)
next
  case (Report i now)
  assume "step a s = Some s'"
  with Report show ?thesis
    by (auto split: if_splits option.splits)
qed (auto simp: start_iteration_def pause_def resume_def cancel_def
      split: list.splits if_splits gate.splits)

lemma exec_total: "exec as s = Some s' \<Longrightarrow> total (ctrl s') = total (ctrl s)"
proof (induction as arbitrary: s)
  case Nil then show ?case by simp
next
  case (Cons a as)
  from Cons.prems obtain s1 where s1: "step a s = Some s1" and e: "exec as s1 = Some s'"
    by (auto split: option.splits)
  from Cons.IH [OF e] step_total [OF s1] show ?case by simp
qed

lemma step_counters:
  assumes inv: "job_inv s" and st: "step a s = Some s'"
  shows "completed (ctrl s') = completed (ctrl s) \<and> orig_bytes (ctrl s') = orig_bytes (ctrl s) \<and>
      webp_bytes (ctrl s') = webp_bytes (ctrl s) \<or>
    (\<exists>i env x y. (a = Count i env \<or> a = Complete i env) \<and> i < length (tasks s) \<and>
      snd (tasks s ! i) = Converting \<and>
      (snd (tasks s' ! i) = Reporting x y \<or> snd (tasks s' ! i) = Succeeded x y) \<and> 0 < y \<and>
      completed (ctrl s') = completed (ctrl s) + 1 \<and>
      orig_bytes (ctrl s') = orig_bytes (ctrl s) + int x \<and>
      webp_bytes (ctrl s') = webp_bytes (ctrl s) + int y)"
proof (cases a)
  case (Complete i env)
  from step_complete_cases [OF inv st [unfolded Complete]] have i: "i < length (tasks s)"
    and c: "snd (tasks s ! i) = Converting" by simp_all
  from step_complete_cases [OF inv st [unfolded Complete]] consider
    (failed) e where "s' = s\<lparr>ctrl := ctrl s,
        tasks := (tasks s)[i := (fst (tasks s ! i), Failed)],
        emitted := emitted s @ [ErrorSignal (error_message (fst (tasks s ! i)) e)]\<rparr>"
    | (succeeded) x y sigs where "0 < y" "s' = s\<lparr>ctrl := (ctrl s)\<lparr>completed := completed (ctrl s) + 1,
                    orig_bytes := orig_bytes (ctrl s) + int x,
                    webp_bytes := webp_bytes (ctrl s) + int y\<rparr>,
               tasks := (tasks s)[i := (fst (tasks s ! i), Succeeded x y)],
               emitted := emitted s @ sigs\<rparr>"
    by blast
  then show ?thesis
  proof cases
    case failed
    then show ?thesis by simp
  next
    case succeeded
    with i c Complete show ?thesis
      by (intro disjI2 exI [of _ i] exI [of _ env] exI [of _ x] exI [of _ y]) simp
  qed
next
  case (Count i env)
  from step_count_cases [OF inv st [unfolded Count]] have i: "i < length (tasks s)"
    and c: "snd (tasks s ! i) = Converting" by simp_all
  from step_count_cases [OF inv st [unfolded Count]] consider
    (failed) e where "s' = s\<lparr>ctrl := ctrl s,
        tasks := (tasks s)[i := (fst (tasks s ! i), Failed)],
        emitted := emitted s @ [ErrorSignal (error_message (fst (tasks s ! i)) e)]\<rparr>"
    | (counted) x y p where "0 < y" "s' = s\<lparr>ctrl := (ctrl s)\<lparr>completed := completed (ctrl s) + 1,
                    orig_bytes := orig_bytes (ctrl s) + int x,
                    webp_bytes := webp_bytes (ctrl s) + int y\<rparr>,
               tasks := (tasks s)[i := (fst (tasks s ! i), Reporting x y)],
               emitted := emitted s @ [ProgressSignal p]\<rparr>"
    by blast
  then show ?thesis
  proof cases
    case failed
    then show ?thesis by simp
  next
    case counted
    with i c Count show ?thesis
      by (intro disjI2 exI [of _ i] exI [of _ env] exI [of _ x] exI [of _ y]) simp
  qed
next
  case (Report i now)
  from step_report_cases [OF st [unfolded Report]] show ?thesis by auto
next
  case StartIteration
  with st show ?thesis by (auto simp: start_iteration_def split: list.splits if_splits)
next
  case Pause
  with st show ?thesis by (auto simp: pause_def)
next
  case Resume
  with st show ?thesis by (auto simp: resume_def)
next
  case Cancel
  with st show ?thesis by (auto simp: cancel_def)
next
  case (Checkpoint i)
  with st show ?thesis by (auto split: if_splits gate.splits)
qed

lemma exec_counters:
  "job_inv s \<Longrightarrow> exec bs s = Some s' \<Longrightarrow>
   completed (ctrl s) \<le> completed (ctrl s') \<and> orig_bytes (ctrl s) \<le> orig_bytes (ctrl s') \<and>
   webp_bytes (ctrl s) \<le> webp_bytes (ctrl s') \<and>
   (completed (ctrl s') = completed (ctrl s) \<longrightarrow>
      orig_bytes (ctrl s') = orig_bytes (ctrl s) \<and> webp_bytes (ctrl s') = webp_bytes (ctrl s))"
proof (induction bs arbitrary: s)
  case Nil then show ?case by simp
next
  case (Cons a bs)
  from Cons.prems(2) obtain s1 where s1: "step a s = Some s1" and e: "exec bs s1 = Some s'"
    by (auto split: option.splits)
  from job_inv_step [OF Cons.prems(1) s1] have inv1: "job_inv s1" .
  from Cons.IH [OF inv1 e] step_counters [OF Cons.prems(1) s1] show ?case by auto
qed

text \<open>
  What holds of the runs made of the steps above, in which \<open>start()\<close> is called once and
  no task makes an access to the counters between the six accesses of another (the calls
  of \<open>task_finished\<close> may still overlap after the counters): in every state \<open>s\<close> that
  such a run reaches, \<open>0 \<le> completed \<le> total\<close>, and the three counters are exactly the
  number of tasks that have reached \<open>task_finished\<close> and the sums of the sizes they
  handed to it. In every later state \<open>s'\<close> the three counters are at least what they
  were, and the byte counters have changed only if \<open>completed\<close> has. A single step either
  leaves the three counters alone or is one converting task entering \<open>task_finished\<close>,
  which adds 1 to \<open>completed\<close> and the task's two sizes to the byte counters.
\<close>

lemma counters_uninterleaved:
  assumes "exec as (new_job fs out q keep del w now) = Some s" and "exec bs s = Some s'"
  shows "0 \<le> completed (ctrl s) \<and> completed (ctrl s) \<le> total (ctrl s) \<and>
    total (ctrl s) = int (length fs) \<and>
    completed (ctrl s) = int (n_counted (tasks s)) \<and>
    orig_bytes (ctrl s) = int (sum_orig (tasks s)) \<and>
    webp_bytes (ctrl s) = int (sum_webp (tasks s)) \<and>
    completed (ctrl s) \<le> completed (ctrl s') \<and>
    orig_bytes (ctrl s) \<le> orig_bytes (ctrl s') \<and>
    webp_bytes (ctrl s) \<le> webp_bytes (ctrl s') \<and>
    (completed (ctrl s') = completed (ctrl s) \<longrightarrow>
       orig_bytes (ctrl s') = orig_bytes (ctrl s) \<and> webp_bytes (ctrl s') = webp_bytes (ctrl s)) \<and>
    (\<forall>a s1. step a s = Some s1 \<longrightarrow>
       completed (ctrl s1) = completed (ctrl s) \<and> orig_bytes (ctrl s1) = orig_bytes (ctrl s) \<and>
       webp_bytes (ctrl s1) = webp_bytes (ctrl s) \<or>
       (\<exists>i env x y. (a = Count i env \<or> a = Complete i env) \<and> i < length (tasks s) \<and>
          snd (tasks s ! i) = Converting \<and>
          (snd (tasks s1 ! i) = Reporting x y \<or> snd (tasks s1 ! i) = Succeeded x y) \<and> 0 < y \<and>
          completed (ctrl s1) = completed (ctrl s) + 1 \<and>
          orig_bytes (ctrl s1) = orig_bytes (ctrl s) + int x \<and>
          webp_bytes (ctrl s1) = webp_bytes (ctrl s) + int y))"
proof -
  from job_inv_exec [OF job_inv_new assms(1)] have inv: "job_inv s" .
  from exec_total [OF assms(1)] have t: "total (ctrl s) = int (length fs)"
    by (simp add: new_job_def JobController_init_def)
  from inv have c: "completed (ctrl s) = int (n_counted (tasks s))"
    and o: "orig_bytes (ctrl s) = int (sum_orig (tasks s))"
    and w: "webp_bytes (ctrl s) = int (sum_webp (tasks s))"
    and l: "int (length (tasks s) + length (pending s)) \<le> total (ctrl s)"
    by (simp_all add: job_inv_def)
  from c l n_counted_le [of "tasks s"] have b: "0 \<le> completed (ctrl s)"
    "completed (ctrl s) \<le> total (ctrl s)" by simp_all
  have st: "\<forall>a s1. step a s = Some s1 \<longrightarrow>
       completed (ctrl s1) = completed (ctrl s) \<and> orig_bytes (ctrl s1) = orig_bytes (ctrl s) \<and>
       webp_bytes (ctrl s1) = webp_bytes (ctrl s) \<or>
       (\<exists>i env x y. (a = Count i env \<or> a = Complete i env) \<and> i < length (tasks s) \<and>
          snd (tasks s ! i) = Converting \<and>
          (snd (tasks s1 ! i) = Reporting x y \<or> snd (tasks s1 ! i) = Succeeded x y) \<and> 0 < y \<and>
          completed (ctrl s1) = completed (ctrl s) + 1 \<and>
          orig_bytes (ctrl s1) = orig_bytes (ctrl s) + int x \<and>
          webp_bytes (ctrl s1) = webp_bytes (ctrl s) + int y)"
    using step_counters [OF inv] by blast
  from exec_counters [OF inv assms(2)] b t c o w st show ?thesis by blast
qed

section \<open>The counters when the accesses of two tasks interleave\<close>

text \<open>
  Tasks that are at the head of \<open>task_finished\<close> at the same time: for each its two
  sizes and where it stands among its six accesses. \<open>interleaved_access i\<close> lets task
  number \<open>i\<close> make its next access, which is not possible when it has made all six;
  \<open>interleaved\<close> makes the accesses in the order given, and \<open>counters_trace\<close> lists
  the values of \<open>completed\<close>, \<open>orig_bytes\<close> and \<open>webp_bytes\<close> before the first access and
  after each one.
\<close>

fun interleaved_access ::
  "nat \<Rightarrow> controller \<times> (int \<times> int \<times> update_point) list \<Rightarrow>
     (controller \<times> (int \<times> int \<times> update_point) list) option" where
  "interleaved_access i (c, ts) =
     (if i < length ts
      then (case ts ! i of
              (orig, webp, p) \<Rightarrow>
                if p = Updated then None
                else (case counter_access orig webp p c of
                        (p', c') \<Rightarrow> Some (c', ts[i := (orig, webp, p')])))
      else None)"

fun interleaved ::
  "nat list \<Rightarrow> controller \<times> (int \<times> int \<times> update_point) list \<Rightarrow>
     (controller \<times> (int \<times> int \<times> update_point) list) option" where
  "interleaved [] st = Some st"
| "interleaved (i # js) st =
     (case interleaved_access i st of None \<Rightarrow> None | Some st' \<Rightarrow> interleaved js st')"

definition counters :: "controller \<Rightarrow> int \<times> int \<times> int" where
  "counters c = (completed c, orig_bytes c, webp_bytes c)"

fun counters_trace ::
  "nat list \<Rightarrow> controller \<times> (int \<times> int \<times> update_point) list \<Rightarrow>
     (int \<times> int \<times> int) list option" where
  "counters_trace [] (c, ts) = Some [counters c]"
| "counters_trace (i # js) (c, ts) =
     (case interleaved_access i (c, ts) of
        None \<Rightarrow> None
      | Some st' \<Rightarrow> map_option ((#) (counters c)) (counters_trace js st'))"

text \<open>
  The controller of a job of three files, and its three tasks as they enter
  \<open>task_finished\<close> with the sizes 100 and 50, 200 and 80, 150 and 60.
\<close>

definition three_file_controller :: controller where
  "three_file_controller =
     JobController_init [''a.png'', ''b.png'', ''c.png''] ''out'' 87 False False 3 0"

definition three_entering :: "(int \<times> int \<times> update_point) list" where
  "three_entering = [(100, 50, ReadCompleted), (200, 80, ReadCompleted), (150, 60, ReadCompleted)]"

text \<open>
  The six accesses of one task, one after the other, are the update that \<open>Count\<close> and
  \<open>Complete\<close> make.
\<close>

lemma interleaved_one_task:
  "interleaved [0, 0, 0, 0, 0, 0] (c, [(orig, webp, ReadCompleted)]) =
     Some (counter_updates orig webp c, [(orig, webp, Updated)])"
  by (simp add: counter_updates_def)

text \<open>
  Claim C1 fails on the source. The three tasks of a job are converting at the same
  time and come to \<open>self.completed += 1\<close> together: task 0 reads \<open>completed = 0\<close>; task 1 reads 0 and writes 1;
  task 2 reads 1 and writes 2; task 0 writes the 1 it computed from the 0 it had read.
  \<open>completed\<close> has gone from 2 down to 1. The three tasks then add their sizes
  to the byte counters, one after the other. In the end each of the three tasks has
  made its update, \<open>completed\<close> is 1 of a total of 3, and the byte counters hold the
  sizes of three tasks: two updates of \<open>completed\<close> are lost, and the byte counters have
  grown without it.
\<close>

theorem counter_update_lost:
  "map_option (\<lambda>s. (ctrl s, map snd (tasks s)))
       (exec [StartIteration, StartIteration, StartIteration,
              Checkpoint 0, Checkpoint 1, Checkpoint 2]
          (new_job [''a.png'', ''b.png'', ''c.png''] ''out'' 87 False False 3 0)) =
     Some (three_file_controller, [Converting, Converting, Converting]) \<and>
   total three_file_controller = 3 \<and>
   counters_trace [0, 1, 1, 2, 2, 0] (three_file_controller, three_entering) =
     Some [(0, 0, 0), (0, 0, 0), (0, 0, 0), (1, 0, 0), (1, 0, 0), (2, 0, 0), (1, 0, 0)] \<and>
   counters_trace [0, 1, 1, 2, 2, 0, 0, 0, 0, 0, 1, 1, 1, 1, 2, 2, 2, 2]
       (three_file_controller, three_entering) =
     Some [(0, 0, 0), (0, 0, 0), (0, 0, 0), (1, 0, 0), (1, 0, 0), (2, 0, 0), (1, 0, 0),
           (1, 0, 0), (1, 100, 0), (1, 100, 0), (1, 100, 50),
           (1, 100, 50), (1, 300, 50), (1, 300, 50), (1, 300, 130),
           (1, 300, 130), (1, 450, 130), (1, 450, 130), (1, 450, 190)] \<and>
   map_option (\<lambda>(c, ts). (counters c, map (\<lambda>(orig, webp, p). p) ts))
       (interleaved [0, 1, 1, 2, 2, 0, 0, 0, 0, 0, 1, 1, 1, 1, 2, 2, 2, 2]
          (three_file_controller, three_entering)) =
     Some ((1, 450, 190), [Updated, Updated, Updated])"
  by code_simp

section \<open>The finished signal\<close>

text \<open>
  The statuses of the end-to-end scenario: four tasks that succeeded with the sizes
  (100, 50), (200, 80), (150, 60) and (300, 100); and one run of such a job, with two
  workers, no metadata and no deletion, in which the tasks complete out of order.
\<close>

definition four_successes :: "task_status list" where
  "four_successes = [Succeeded 100 50, Succeeded 200 80, Succeeded 150 60, Succeeded 300 100]"

definition four_file_run :: "action list" where
  "four_file_run =
     [StartIteration, StartIteration, StartIteration, StartIteration,
      Checkpoint 0, Checkpoint 1, Complete 1 (sample_env 200 80 1), Checkpoint 2,
      Complete 0 (sample_env 100 50 2), Checkpoint 3, Complete 3 (sample_env 300 100 3),
      Complete 2 (sample_env 150 60 4)]"

definition four_file_job :: system where
  "four_file_job = new_job [''a.png'', ''b.png'', ''c.png'', ''d.png''] ''out'' 87 False False 2 0"

text \<open>
  A run of a job of two files on two workers in which the two calls of \<open>task_finished\<close>
  overlap: the first task is past \<open>self.progress.emit\<close> when the second task enters the
  method, and the second task returns from it before the first one goes on.
\<close>

definition overlapping_run :: "action list" where
  "overlapping_run =
     [StartIteration, StartIteration, Checkpoint 0, Checkpoint 1,
      Count 0 (sample_env 100 50 1), Count 1 (sample_env 200 80 1),
      Report 1 2, Report 0 2]"

definition overlapping_job :: system where
  "overlapping_job = new_job [''a.png'', ''b.png''] ''out'' 87 False False 2 0"

text \<open>
  A step is serial when it is not a part of \<open>task_finished\<close> on its own: in a run of
  serial steps no two calls of \<open>task_finished\<close> overlap.
\<close>

fun serial :: "action \<Rightarrow> bool" where
  "serial (Count i env) = False"
| "serial (Report i now) = False"
| "serial a = True"

text \<open>
  The \<open>finished\<close> signals emitted so far are a single one, carrying the counters, when
  \<open>completed\<close> has reached a positive \<open>total\<close>, and none otherwise.
\<close>

definition finished_once :: "system \<Rightarrow> bool" where
  "finished_once s =
     (filter is_finished (emitted s) =
        (if 0 < total (ctrl s) \<and> completed (ctrl s) = total (ctrl s)
         then [FinishedSignal (completed (ctrl s)) (orig_bytes (ctrl s) - webp_bytes (ctrl s))]
         else []))"

lemma finished_once_step:
  assumes inv: "job_inv s" and f: "finished_once s" and ser: "serial a"
    and st: "step a s = Some s1"
  shows "finished_once s1"
proof (cases a)
  case (Complete i env)
  from step_complete_cases [OF inv st [unfolded Complete]]
  have lt: "completed (ctrl s) < total (ctrl s)" by simp
  from inv have c0: "0 \<le> completed (ctrl s)" by (simp add: job_inv_def n_counted_def)
  from f lt have none: "filter is_finished (emitted s) = []" by (simp add: finished_once_def)
  from step_complete_cases [OF inv st [unfolded Complete]] consider
    (failed) e where "s1 = s\<lparr>ctrl := ctrl s,
        tasks := (tasks s)[i := (fst (tasks s ! i), Failed)],
        emitted := emitted s @ [ErrorSignal (error_message (fst (tasks s ! i)) e)]\<rparr>"
    | (succeeded) x y p where "s1 = s\<lparr>ctrl := (ctrl s)\<lparr>completed := completed (ctrl s) + 1,
                    orig_bytes := orig_bytes (ctrl s) + int x,
                    webp_bytes := webp_bytes (ctrl s) + int y\<rparr>,
               tasks := (tasks s)[i := (fst (tasks s ! i), Succeeded x y)],
               emitted := emitted s @ ProgressSignal p #
                 task_finished_report (monotonic env)
                   ((ctrl s)\<lparr>completed := completed (ctrl s) + 1,
                      orig_bytes := orig_bytes (ctrl s) + int x,
                      webp_bytes := webp_bytes (ctrl s) + int y\<rparr>)\<rparr>"
    by blast
  then show ?thesis
  proof cases
    case failed
    with none lt show ?thesis by (simp add: finished_once_def)
  next
    case succeeded
    obtain t where "task_finished_report (monotonic env)
        ((ctrl s)\<lparr>completed := completed (ctrl s) + 1,
           orig_bytes := orig_bytes (ctrl s) + int x,
           webp_bytes := webp_bytes (ctrl s) + int y\<rparr>) =
      EtaSignal t #
      (if completed (ctrl s) + 1 = total (ctrl s)
       then [FinishedSignal (completed (ctrl s) + 1)
               (orig_bytes (ctrl s) + int x - (webp_bytes (ctrl s) + int y))]
       else [])"
      using task_finished_report_result
        [of "monotonic env" "(ctrl s)\<lparr>completed := completed (ctrl s) + 1,
           orig_bytes := orig_bytes (ctrl s) + int x,
           webp_bytes := webp_bytes (ctrl s) + int y\<rparr>"] by auto
    with succeeded none lt c0 show ?thesis by (simp add: finished_once_def)
  qed
next
  case StartIteration
  with st f show ?thesis
    by (auto simp: finished_once_def start_iteration_def split: list.splits if_splits)
next
  case Pause
  with st f show ?thesis by (auto simp: finished_once_def pause_def)
next
  case Resume
  with st f show ?thesis by (auto simp: finished_once_def resume_def)
next
  case Cancel
  with st f show ?thesis by (auto simp: finished_once_def cancel_def)
next
  case (Checkpoint i)
  with st f show ?thesis by (auto simp: finished_once_def split: if_splits gate.splits)
next
  case (Count i env)
  with ser show ?thesis by simp
next
  case (Report i now)
  with ser show ?thesis by simp
qed

lemma finished_once_exec:
  "job_inv s \<Longrightarrow> finished_once s \<Longrightarrow> list_all serial as \<Longrightarrow> exec as s = Some s' \<Longrightarrow>
   finished_once s'"
proof (induction as arbitrary: s)
  case Nil then show ?case by simp
next
  case (Cons a as)
  from Cons.prems(4) obtain s1 where s1: "step a s = Some s1" and e: "exec as s1 = Some s'"
    by (auto split: option.splits)
  from Cons.prems(3) have a: "serial a" and as: "list_all serial as" by simp_all
  from job_inv_step [OF Cons.prems(1) s1] have inv1: "job_inv s1" .
  from finished_once_step [OF Cons.prems(1,2) a s1] have "finished_once s1" .
  from Cons.IH [OF inv1 this as e] show ?case .
qed

lemma four_successes_sums:
  "map snd ts = four_successes \<Longrightarrow> n_counted ts = 4 \<and> sum_orig ts = 750 \<and> sum_webp ts = 290"
proof -
  assume m: "map snd ts = four_successes"
  have "n_counted ts = sum_list (map counts_one (map snd ts))"
    "sum_orig ts = sum_list (map orig_of (map snd ts))"
    "sum_webp ts = sum_list (map webp_of (map snd ts))"
    by (simp_all add: n_counted_def sum_orig_def sum_webp_def comp_def)
  with m show ?thesis by (simp add: four_successes_def)
qed

text \<open>
  When no two calls of \<open>task_finished\<close> overlap, the signal is emitted exactly once,
  by the completion that makes \<open>completed\<close> reach \<open>total\<close>, and it carries \<open>completed\<close>
  and \<open>orig_bytes - webp_bytes\<close>; in the scenario of four files these are 4 and 460.
\<close>

lemma finished_signal_once_serial:
  assumes "list_all serial as" and "exec as (new_job fs out q keep del w now) = Some s"
  shows "filter is_finished (emitted s) =
      (if 0 < total (ctrl s) \<and> completed (ctrl s) = total (ctrl s)
       then [FinishedSignal (completed (ctrl s)) (orig_bytes (ctrl s) - webp_bytes (ctrl s))]
       else []) \<and>
    (length fs = 4 \<and> map snd (tasks s) = four_successes \<longrightarrow>
       filter is_finished (emitted s) = [FinishedSignal 4 460])"
proof -
  have "finished_once (new_job fs out q keep del w now)"
    by (simp add: finished_once_def new_job_def JobController_init_def)
  from finished_once_exec [OF job_inv_new this assms]
  have f: "filter is_finished (emitted s) =
      (if 0 < total (ctrl s) \<and> completed (ctrl s) = total (ctrl s)
       then [FinishedSignal (completed (ctrl s)) (orig_bytes (ctrl s) - webp_bytes (ctrl s))]
       else [])" by (simp add: finished_once_def)
  from job_inv_exec [OF job_inv_new assms(2)] have inv: "job_inv s" .
  from exec_total [OF assms(2)] have t: "total (ctrl s) = int (length fs)"
    by (simp add: new_job_def JobController_init_def)
  have "length fs = 4 \<and> map snd (tasks s) = four_successes \<longrightarrow>
       filter is_finished (emitted s) = [FinishedSignal 4 460]"
  proof
    assume h: "length fs = 4 \<and> map snd (tasks s) = four_successes"
    with four_successes_sums [of "tasks s"] inv t
    have "completed (ctrl s) = 4" "total (ctrl s) = 4" "orig_bytes (ctrl s) = 750"
      "webp_bytes (ctrl s) = 290" by (simp_all add: job_inv_def)
    with f show "filter is_finished (emitted s) = [FinishedSignal 4 460]" by simp
  qed
  with f show ?thesis by blast
qed

lemma four_file_run_emitted:
  "list_all serial four_file_run \<and>
   map_option (map snd \<circ> tasks) (exec four_file_run four_file_job) = Some four_successes \<and>
   map_option emitted (exec four_file_run four_file_job) = Some
     [ProgressSignal 25, EtaSignal ''00:00:03'', ProgressSignal 50, EtaSignal ''00:00:02'',
      ProgressSignal 75, EtaSignal ''00:00:01'', ProgressSignal 100, EtaSignal ''00:00:00'',
      FinishedSignal 4 460]"
  by code_simp

text \<open>
  In every run, overlapping or not, a \<open>finished\<close> signal is only emitted once
  \<open>completed\<close> has reached \<open>total\<close>, and every one emitted carries the final counters.
\<close>

definition finished_payload :: "system \<Rightarrow> bool" where
  "finished_payload s =
     list_all (\<lambda>sg. \<not> is_finished sg \<or>
        completed (ctrl s) = total (ctrl s) \<and>
        sg = FinishedSignal (total (ctrl s)) (orig_bytes (ctrl s) - webp_bytes (ctrl s)))
       (emitted s)"

lemma finished_payload_none:
  "finished_payload s \<Longrightarrow> completed (ctrl s) < total (ctrl s) \<Longrightarrow>
   list_all (\<lambda>sg. \<not> is_finished sg) (emitted s)"
  by (auto simp: finished_payload_def list_all_iff)

lemma finished_payload_step:
  assumes inv: "job_inv s" and f: "finished_payload s" and st: "step a s = Some s1"
  shows "finished_payload s1"
proof (cases a)
  case (Complete i env)
  from step_complete_cases [OF inv st [unfolded Complete]]
  have lt: "completed (ctrl s) < total (ctrl s)" by simp
  from finished_payload_none [OF f lt]
  have none: "list_all (\<lambda>sg. \<not> is_finished sg) (emitted s)" .
  from step_complete_cases [OF inv st [unfolded Complete]] consider
    (failed) e where "s1 = s\<lparr>ctrl := ctrl s,
        tasks := (tasks s)[i := (fst (tasks s ! i), Failed)],
        emitted := emitted s @ [ErrorSignal (error_message (fst (tasks s ! i)) e)]\<rparr>"
    | (succeeded) x y p where "s1 = s\<lparr>ctrl := (ctrl s)\<lparr>completed := completed (ctrl s) + 1,
                    orig_bytes := orig_bytes (ctrl s) + int x,
                    webp_bytes := webp_bytes (ctrl s) + int y\<rparr>,
               tasks := (tasks s)[i := (fst (tasks s ! i), Succeeded x y)],
               emitted := emitted s @ ProgressSignal p #
                 task_finished_report (monotonic env)
                   ((ctrl s)\<lparr>completed := completed (ctrl s) + 1,
                      orig_bytes := orig_bytes (ctrl s) + int x,
                      webp_bytes := webp_bytes (ctrl s) + int y\<rparr>)\<rparr>"
    by blast
  then show ?thesis
  proof cases
    case failed
    with none show ?thesis by (auto simp: finished_payload_def list_all_iff)
  next
    case succeeded
    obtain t where "task_finished_report (monotonic env)
        ((ctrl s)\<lparr>completed := completed (ctrl s) + 1,
           orig_bytes := orig_bytes (ctrl s) + int x,
           webp_bytes := webp_bytes (ctrl s) + int y\<rparr>) =
      EtaSignal t #
      (if completed (ctrl s) + 1 = total (ctrl s)
       then [FinishedSignal (completed (ctrl s) + 1)
               (orig_bytes (ctrl s) + int x - (webp_bytes (ctrl s) + int y))]
       else [])"
      using task_finished_report_result
        [of "monotonic env" "(ctrl s)\<lparr>completed := completed (ctrl s) + 1,
           orig_bytes := orig_bytes (ctrl s) + int x,
           webp_bytes := webp_bytes (ctrl s) + int y\<rparr>"] by auto
    with succeeded none show ?thesis by (auto simp: finished_payload_def list_all_iff)
  qed
next
  case (Count i env)
  from step_count_cases [OF inv st [unfolded Count]]
  have lt: "completed (ctrl s) < total (ctrl s)" by simp
  from finished_payload_none [OF f lt]
  have none: "list_all (\<lambda>sg. \<not> is_finished sg) (emitted s)" .
  from step_count_cases [OF inv st [unfolded Count]] consider
    (failed) e where "s1 = s\<lparr>ctrl := ctrl s,
        tasks := (tasks s)[i := (fst (tasks s ! i), Failed)],
        emitted := emitted s @ [ErrorSignal (error_message (fst (tasks s ! i)) e)]\<rparr>"
    | (counted) x y p where "s1 = s\<lparr>ctrl := (ctrl s)\<lparr>completed := completed (ctrl s) + 1,
                    orig_bytes := orig_bytes (ctrl s) + int x,
                    webp_bytes := webp_bytes (ctrl s) + int y\<rparr>,
               tasks := (tasks s)[i := (fst (tasks s ! i), Reporting x y)],
               emitted := emitted s @ [ProgressSignal p]\<rparr>"
    by blast
  then show ?thesis
  proof cases
    case failed
    with none show ?thesis by (auto simp: finished_payload_def list_all_iff)
  next
    case counted
    with none show ?thesis by (auto simp: finished_payload_def list_all_iff)
  qed
next
  case (Report i now)
  from step_report_cases [OF st [unfolded Report]] obtain x y where
    s1: "s1 = s\<lparr>tasks := (tasks s)[i := (fst (tasks s ! i), Succeeded x y)],
              emitted := emitted s @ task_finished_report now (ctrl s)\<rparr>" by blast
  obtain t where "task_finished_report now (ctrl s) =
      EtaSignal t #
      (if completed (ctrl s) = total (ctrl s)
       then [FinishedSignal (completed (ctrl s)) (orig_bytes (ctrl s) - webp_bytes (ctrl s))]
       else [])"
    using task_finished_report_result [of now "ctrl s"] by auto
  with s1 f show ?thesis by (auto simp: finished_payload_def list_all_iff)
next
  case StartIteration
  with st f show ?thesis
    by (auto simp: finished_payload_def start_iteration_def split: list.splits if_splits)
next
  case Pause
  with st f show ?thesis by (auto simp: finished_payload_def pause_def)
next
  case Resume
  with st f show ?thesis by (auto simp: finished_payload_def resume_def)
next
  case Cancel
  with st f show ?thesis by (auto simp: finished_payload_def cancel_def)
next
  case (Checkpoint i)
  with st f show ?thesis by (auto simp: finished_payload_def split: if_splits gate.splits)
qed

lemma finished_payload_exec:
  "job_inv s \<Longrightarrow> finished_payload s \<Longrightarrow> exec as s = Some s' \<Longrightarrow> finished_payload s'"
proof (induction as arbitrary: s)
  case Nil then show ?case by simp
next
  case (Cons a as)
  from Cons.prems(3) obtain s1 where s1: "step a s = Some s1" and e: "exec as s1 = Some s'"
    by (auto split: option.splits)
  from job_inv_step [OF Cons.prems(1) s1] have inv1: "job_inv s1" .
  from finished_payload_step [OF Cons.prems(1,2) s1] have "finished_payload s1" .
  from Cons.IH [OF inv1 this e] show ?case .
qed

lemma finished_signal_payload:
  assumes "exec as (new_job fs out q keep del w now) = Some s"
    and "sg \<in> set (emitted s)" and "is_finished sg"
  shows "completed (ctrl s) = int (length fs) \<and>
    sg = FinishedSignal (int (length fs)) (orig_bytes (ctrl s) - webp_bytes (ctrl s))"
proof -
  have "finished_payload (new_job fs out q keep del w now)"
    by (simp add: finished_payload_def new_job_def)
  from finished_payload_exec [OF job_inv_new this assms(1)] assms(2,3)
  have "completed (ctrl s) = total (ctrl s) \<and>
    sg = FinishedSignal (total (ctrl s)) (orig_bytes (ctrl s) - webp_bytes (ctrl s))"
    by (auto simp: finished_payload_def list_all_iff)
  moreover from exec_total [OF assms(1)] have "total (ctrl s) = int (length fs)"
    by (simp add: new_job_def JobController_init_def)
  ultimately show ?thesis by simp
qed

text \<open>
  Claim C2. What the signal carries is as claimed in every run, and so is the number of
  signals in every run in which the calls of \<open>task_finished\<close> do not overlap (both
  above), but the source does not keep them from overlapping. In the overlapping run of
  two files both tasks have updated the counters before either compares \<open>completed\<close>
  with \<open>total\<close>, so both find them equal and both emit the \<open>finished\<close> signal: it is
  emitted twice, the second time by a completion that did not make \<open>completed\<close> reach
  \<open>total\<close>.
\<close>

theorem finished_signal_twice:
  "map_option emitted (exec overlapping_run overlapping_job) = Some
     [ProgressSignal 50, ProgressSignal 100,
      EtaSignal ''00:00:00'', FinishedSignal 2 170,
      EtaSignal ''00:00:00'', FinishedSignal 2 170] \<and>
   map_option (map snd \<circ> tasks) (exec overlapping_run overlapping_job) =
     Some [Succeeded 100 50, Succeeded 200 80] \<and>
   map_option (length \<circ> filter is_finished \<circ> emitted) (exec overlapping_run overlapping_job) =
     Some 2 \<and>
   map_option (completed \<circ> ctrl) (exec overlapping_run overlapping_job) = Some 2 \<and>
   map_option (total \<circ> ctrl) (exec overlapping_run overlapping_job) = Some 2"
  by code_simp

section \<open>Progress and ETA\<close>

text \<open>
  The two values as the specification words them, in exact arithmetic: the progress
  \<open>floor(completed / total * 100)\<close>, and the ETA \<open>(total - completed) / rate\<close> with
  \<open>rate = completed / elapsed\<close>, \<open>rate\<close> being 0 when \<open>elapsed\<close> is 0 and the ETA 0 when
  \<open>rate\<close> is 0, formatted as \<open>HH:MM:SS\<close>. \<open>k\<close> is \<open>completed\<close> and \<open>n\<close> is \<open>total\<close>.
\<close>

definition spec_percent :: "int \<Rightarrow> int \<Rightarrow> int" where
  "spec_percent k n = \<lfloor>(of_int k :: rat) / of_int n * 100\<rfloor>"

definition spec_eta :: "int \<Rightarrow> int \<Rightarrow> rat \<Rightarrow> string" where
  "spec_eta k n elapsed =
     (let rate = (if elapsed = 0 then 0 else of_int k / elapsed);
          eta = (if rate = 0 then 0 else of_int (n - k) / rate)
      in strftime_HMS \<lfloor>eta\<rfloor>)"

text \<open>
  Jobs whose tasks all succeed, one after the other: \<open>numbered_files n\<close> are \<open>n\<close> input
  paths, \<open>completions envs\<close> lets the tasks \<open>0, 1, ...\<close> run from their checkpoint to their
  end, each in its environment, and \<open>at_clock\<close> are the environments for the given clock
  readings. \<open>progress_values\<close> and \<open>eta_values\<close> read the payloads off the signals.
\<close>

definition numbered_files :: "nat \<Rightarrow> string list" where
  "numbered_files n = map (\<lambda>k. ''img'' @ str_nat k @ ''.png'') [0..<n]"

definition completions :: "task_env list \<Rightarrow> action list" where
  "completions envs =
     concat (map (\<lambda>(i, env). [Checkpoint i, Complete i env]) (zip [0..<length envs] envs))"

definition at_clock :: "rat list \<Rightarrow> task_env list" where
  "at_clock ts = map (sample_env 100 50) ts"

definition successes :: "nat \<Rightarrow> rat list \<Rightarrow> system option" where
  "successes n ts =
     exec (replicate n StartIteration @ completions (at_clock ts))
       (new_job (numbered_files n) ''out'' 87 False False 2 0)"

text \<open>
  The controller of a job of \<open>n\<close> files after \<open>k\<close> of its tasks have succeeded, each with
  the sizes 100 and 50.
\<close>

definition after_successes :: "nat \<Rightarrow> nat \<Rightarrow> controller" where
  "after_successes n k =
     (JobController_init (numbered_files n) ''out'' 87 False False 2 0)
       \<lparr>completed := int k, orig_bytes := 100 * int k, webp_bytes := 50 * int k\<rparr>"

definition progress_values :: "signal list \<Rightarrow> int list" where
  "progress_values sigs = concat (map (\<lambda>sg. case sg of ProgressSignal p \<Rightarrow> [p] | _ \<Rightarrow> []) sigs)"

definition eta_values :: "signal list \<Rightarrow> string list" where
  "eta_values sigs = concat (map (\<lambda>sg. case sg of EtaSignal t \<Rightarrow> [t] | _ \<Rightarrow> []) sigs)"

lemma round_double_zero: "round_double 0 = 0"
  by (simp add: round_double_def)

text \<open>
  Rounding at some known values: the doubles nearest to \<open>1 / 10\<close> and to its negative,
  the sum \<open>0.1 + 0.2\<close>, and the integers just above \<open>2 ^ 53\<close>, where every second integer
  is a double and a tie goes to the even significand.
\<close>

lemma round_double_examples:
  "round_double (1 / 10) = 3602879701896397 / 36028797018963968 \<and>
   round_double (- 1 / 10) = - 3602879701896397 / 36028797018963968 \<and>
   float_sub (round_double (1 / 10)) (- round_double (2 / 10)) =
     1351079888211149 / 4503599627370496 \<and>
   round_double 9007199254740992 = 9007199254740992 \<and>
   round_double 9007199254740993 = 9007199254740992 \<and>
   round_double 9007199254740995 = 9007199254740996 \<and>
   round_double (1 / 2) = 1 / 2 \<and> round_double 100 = 100"
  by code_simp

lemma strftime_HMS_zero: "strftime_HMS 0 = ''00:00:00''"
  by code_simp

text \<open>
  The two guards: with \<open>completed = 0\<close> the rate is zero, and with no time elapsed the
  division by \<open>elapsed\<close> is not made; the ETA is \<open>00:00:00\<close> in both cases, whatever the
  rest of the controller.
\<close>

lemma eta_nothing_completed:
  "hd (task_finished_report now (c\<lparr>completed := 0\<rparr>)) = EtaSignal ''00:00:00''"
  by (simp add: task_finished_report_def float_truediv_def float_of_int_def
      round_double_zero strftime_HMS_zero Let_def)

lemma eta_nothing_elapsed:
  "hd (task_finished_report (start_time c) c) = EtaSignal ''00:00:00''"
  by (simp add: task_finished_report_def float_sub_def round_double_zero
      strftime_HMS_zero Let_def)

text \<open>
  Claim C3 fails on the source. In a job of 100 files, the 29th success emits the
  progress 28, as the 28th did, where \<open>floor(29 / 100 * 100)\<close> is 29: the double nearest
  to \<open>29 / 100\<close> is below it, its product with 100 rounds to the double just below 29,
  and \<open>int\<close> truncates. In a job of 10 files whose fifth success comes 29 seconds after
  the start, the ETA emitted is \<open>00:00:28\<close> where the formula gives 29 seconds: the
  double nearest to \<open>5 / 29\<close> is above it, and 5 divided by it rounds to the same double
  just below 29. Both examples of the claim hold: \<open>00:00:10\<close> for the fifth success of 10
  after 10 seconds, and \<open>00:00:00\<close> with nothing completed.
\<close>

theorem progress_and_eta_rounded:
  "task_finished_count 100 50 (after_successes 100 27) =
     (None, after_successes 100 28, [ProgressSignal 28]) \<and>
   task_finished_count 100 50 (after_successes 100 28) =
     (None, after_successes 100 29, [ProgressSignal 28]) \<and>
   spec_percent 28 100 = 28 \<and> spec_percent 29 100 = 29 \<and>
   int_truediv 29 100 = 5224175567749775 / 18014398509481984 \<and>
   float_mul (int_truediv 29 100) (float_of_int 100) = 8162774324609023 / 281474976710656 \<and>
   map_option (\<lambda>s. (ctrl s, eta_values (emitted s))) (successes 10 [6, 12, 18, 24, 29]) =
     Some (after_successes 10 5,
           [''00:00:54'', ''00:00:48'', ''00:00:42'', ''00:00:36'', ''00:00:28'']) \<and>
   task_finished_report 29 (after_successes 10 5) = [EtaSignal ''00:00:28''] \<and>
   spec_eta 5 10 29 = ''00:00:29'' \<and>
   float_truediv (float_of_int 5) (float_truediv (float_of_int 5) (float_sub 29 0)) =
     8162774324609023 / 281474976710656 \<and>
   task_finished_report 10 (after_successes 10 5) = [EtaSignal ''00:00:10''] \<and>
   spec_eta 5 10 10 = ''00:00:10'' \<and>
   task_finished_report 10 (after_successes 10 0) = [EtaSignal ''00:00:00''] \<and>
   spec_eta 0 10 10 = ''00:00:00''"
  by code_simp

section \<open>The checkpoint of a task\<close>

text \<open>A job of two files, both handed to the pool, that has then been paused.\<close>

definition paused_job :: system where
  "paused_job = the (exec [StartIteration, StartIteration, Pause]
     (new_job [''a.png'', ''b.png''] ''out'' 87 False False 2 0))"

lemma skipped_step:
  assumes st: "step a s = Some s'" and i: "i < length (tasks s)"
    and sk: "snd (tasks s ! i) = Skipped"
  shows "i < length (tasks s') \<and> tasks s' ! i = tasks s ! i"
proof (cases a)
  case StartIteration
  with st i show ?thesis
    by (auto simp: start_iteration_def nth_append split: list.splits if_splits)
next
  case (Checkpoint j)
  with st sk have "j \<noteq> i" by (auto split: if_splits)
  with st i Checkpoint show ?thesis by (auto split: if_splits gate.splits)
next
  case (Count j env)
  with st sk have "j \<noteq> i" by (auto split: if_splits)
  with st i Count show ?thesis by (auto simp: Let_def split: if_splits prod.splits)
next
  case (Report j now)
  with st sk have "j \<noteq> i" by (auto split: if_splits option.splits)
  with st i Report show ?thesis by (auto split: if_splits option.splits)
next
  case (Complete j env)
  with st sk have "j \<noteq> i" by (auto split: if_splits)
  with st i Complete show ?thesis by (auto simp: Let_def split: if_splits prod.splits)
qed (use st i in auto)

lemma skipped_exec:
  "exec as s = Some s' \<Longrightarrow> i < length (tasks s) \<Longrightarrow> snd (tasks s ! i) = Skipped \<Longrightarrow>
   i < length (tasks s') \<and> tasks s' ! i = tasks s ! i"
proof (induction as arbitrary: s)
  case Nil then show ?case by simp
next
  case (Cons a as)
  from Cons.prems(1) obtain s1 where s1: "step a s = Some s1" and e: "exec as s1 = Some s'"
    by (auto split: option.splits)
  from skipped_step [OF s1 Cons.prems(2,3)] have a: "i < length (tasks s1)"
    and b: "tasks s1 ! i = tasks s ! i" by simp_all
  from b Cons.prems(3) have "snd (tasks s1 ! i) = Skipped" by simp
  from Cons.IH [OF e a this] b show ?case by simp
qed

text \<open>
  Claim C5. A queued task cannot leave its checkpoint while the job is paused. When it
  leaves (the wait has returned), the \<open>cancelled\<close> flag is read then: if it is set the
  task is skipped, and the controller and the signals are untouched; if it is clear the
  task goes on to convert. So a job cancelled while the task was waiting skips the task
  after \<open>resume()\<close>. A skipped task stays skipped in every later state, and neither its
  checkpoint nor any part of its \<open>try\<close> statement is a possible step any more: its
  conversion never runs and \<open>task_finished\<close> is never called for it. The same holds of \<open>run\<close> as one
  function of the controller it sees.
\<close>

theorem cancel_checked_after_pause:
  "(i < length (tasks s) \<and> snd (tasks s ! i) = Queued \<longrightarrow>
      (paused (ctrl s) \<longrightarrow> step (Checkpoint i) s = None) \<and>
      (\<not> paused (ctrl s) \<and> cancelled (ctrl s) \<longrightarrow>
         step (Checkpoint i) s = Some (s\<lparr>tasks := (tasks s)[i := (fst (tasks s ! i), Skipped)]\<rparr>)) \<and>
      (\<not> paused (ctrl s) \<and> \<not> cancelled (ctrl s) \<longrightarrow>
         step (Checkpoint i) s =
           Some (s\<lparr>tasks := (tasks s)[i := (fst (tasks s ! i), Converting)]\<rparr>)) \<and>
      exec [Cancel, Resume, Checkpoint i] s =
        Some (s\<lparr>ctrl := resume (cancel (ctrl s)),
                tasks := (tasks s)[i := (fst (tasks s ! i), Skipped)]\<rparr>)) \<and>
   (i < length (tasks s) \<and> snd (tasks s ! i) = Skipped \<and> exec as s = Some s' \<longrightarrow>
      i < length (tasks s') \<and> tasks s' ! i = tasks s ! i \<and>
      step (Checkpoint i) s' = None \<and> step (Count i env) s' = None \<and>
      step (Report i now) s' = None \<and> step (Complete i env) s' = None) \<and>
   ConvertTask_run c img_path env =
     (if paused c then None
      else if cancelled c then Some (Skipped, c, [])
      else Some (run_body c img_path env))"
proof (intro conjI impI)
  assume h: "i < length (tasks s) \<and> snd (tasks s ! i) = Queued"
  then show "paused (ctrl s) \<Longrightarrow> step (Checkpoint i) s = None"
    by (simp add: run_checkpoint_def)
  from h show "\<not> paused (ctrl s) \<and> cancelled (ctrl s) \<Longrightarrow>
    step (Checkpoint i) s = Some (s\<lparr>tasks := (tasks s)[i := (fst (tasks s ! i), Skipped)]\<rparr>)"
    by (simp add: run_checkpoint_def)
  from h show "\<not> paused (ctrl s) \<and> \<not> cancelled (ctrl s) \<Longrightarrow>
    step (Checkpoint i) s = Some (s\<lparr>tasks := (tasks s)[i := (fst (tasks s ! i), Converting)]\<rparr>)"
    by (simp add: run_checkpoint_def)
  from h show "exec [Cancel, Resume, Checkpoint i] s =
        Some (s\<lparr>ctrl := resume (cancel (ctrl s)),
                tasks := (tasks s)[i := (fst (tasks s ! i), Skipped)]\<rparr>)"
    by (simp add: run_checkpoint_def resume_def cancel_def)
next
  assume h: "i < length (tasks s) \<and> snd (tasks s ! i) = Skipped \<and> exec as s = Some s'"
  then have e: "exec as s = Some s'" and i: "i < length (tasks s)"
    and sk: "snd (tasks s ! i) = Skipped" by simp_all
  from skipped_exec [OF e i sk] show a: "i < length (tasks s')"
    and b: "tasks s' ! i = tasks s ! i" by simp_all
  from b sk show "step (Checkpoint i) s' = None" "step (Count i env) s' = None"
    "step (Report i now) s' = None" "step (Complete i env) s' = None"
    by simp_all
next
  show "ConvertTask_run c img_path env =
     (if paused c then None
      else if cancelled c then Some (Skipped, c, [])
      else Some (run_body c img_path env))"
    by (simp add: ConvertTask_run_def run_checkpoint_def)
qed

text \<open>
  The witness: the paused job; the first task cannot pass; after \<open>cancel()\<close> and
  \<open>resume()\<close> both tasks are skipped at their checkpoints, with nothing counted and
  nothing emitted; after \<open>resume()\<close> alone the first task converts.
\<close>

theorem cancel_checked_after_pause_witness:
  "tasks paused_job = [(''a.png'', Queued), (''b.png'', Queued)] \<and>
   paused (ctrl paused_job) \<and> \<not> cancelled (ctrl paused_job) \<and>
   step (Checkpoint 0) paused_job = None \<and>
   (\<exists>s. exec [Cancel, Resume, Checkpoint 0] paused_job = Some s \<and>
        tasks s = [(''a.png'', Skipped), (''b.png'', Queued)] \<and>
        completed (ctrl s) = 0 \<and> emitted s = [] \<and>
        step (Complete 0 (sample_env 100 50 1)) s = None \<and>
        (\<exists>s'. exec [Checkpoint 1] s = Some s' \<and>
           tasks s' = [(''a.png'', Skipped), (''b.png'', Skipped)] \<and>
           step (Complete 0 (sample_env 100 50 1)) s' = None)) \<and>
   (\<exists>s. exec [Resume, Checkpoint 0] paused_job = Some s \<and>
        tasks s = [(''a.png'', Converting), (''b.png'', Queued)])"
proof -
  have t: "tasks paused_job = [(''a.png'', Queued), (''b.png'', Queued)]"
    "paused (ctrl paused_job)" "\<not> cancelled (ctrl paused_job)"
    unfolding paused_job_def by code_simp+
  then have q: "0 < length (tasks paused_job) \<and> snd (tasks paused_job ! 0) = Queued" by simp
  define s where "s = the (exec [Cancel, Resume, Checkpoint 0] paused_job)"
  define s' where "s' = the (exec [Checkpoint 1] s)"
  define r where "r = the (exec [Resume, Checkpoint 0] paused_job)"
  have e: "exec [Cancel, Resume, Checkpoint 0] paused_job = Some s"
    "exec [Checkpoint 1] s = Some s'" "exec [Resume, Checkpoint 0] paused_job = Some r"
    unfolding s_def s'_def r_def paused_job_def by code_simp+
  have v: "tasks s = [(''a.png'', Skipped), (''b.png'', Queued)]"
    "completed (ctrl s) = 0" "emitted s = []"
    "tasks s' = [(''a.png'', Skipped), (''b.png'', Skipped)]"
    "tasks r = [(''a.png'', Converting), (''b.png'', Queued)]"
    unfolding s_def s'_def r_def paused_job_def by code_simp+
  from v have sk: "0 < length (tasks s) \<and> snd (tasks s ! 0) = Skipped \<and> exec [] s = Some s"
    "0 < length (tasks s) \<and> snd (tasks s ! 0) = Skipped \<and> exec [Checkpoint 1] s = Some s'"
    using e by simp_all
  from cancel_checked_after_pause
    [of 0 paused_job "[]" paused_job "sample_env 100 50 1" 1 "ctrl paused_job" "''a.png''"] q t
  have a: "step (Checkpoint 0) paused_job = None" by simp
  have f: "\<not> paused (ctrl s) \<and> cancelled (ctrl s)" "\<not> paused (ctrl r) \<and> \<not> cancelled (ctrl r)"
    unfolding s_def r_def paused_job_def by code_simp+
  from v have q1: "1 < length (tasks s) \<and> snd (tasks s ! 1) = Queued" by simp
  from cancel_checked_after_pause
    [of 1 s "[]" s "sample_env 100 50 1" 1 "ctrl s" "''b.png''"] q1 f(1)
  have g1: "step (Checkpoint 1) s =
      Some (s\<lparr>tasks := (tasks s)[1 := (fst (tasks s ! 1), Skipped)]\<rparr>)" by blast
  from v have q2: "1 < length (tasks r) \<and> snd (tasks r ! 1) = Queued" by simp
  from cancel_checked_after_pause
    [of 1 r "[]" r "sample_env 100 50 1" 1 "ctrl r" "''b.png''"] q2 f(2)
  have g2: "step (Checkpoint 1) r =
      Some (r\<lparr>tasks := (tasks r)[1 := (fst (tasks r ! 1), Converting)]\<rparr>)" by blast
  from cancel_checked_after_pause [of 0 s "[]" s "sample_env 100 50 1"] sk(1)
  have b: "step (Complete 0 (sample_env 100 50 1)) s = None" by blast
  from cancel_checked_after_pause [of 0 s "[Checkpoint 1]" s' "sample_env 100 50 1"] sk(2)
  have c: "step (Complete 0 (sample_env 100 50 1)) s' = None" by blast
  from t a b c e v g1 g2 show ?thesis by simp
qed


section \<open>Failures of a task\<close>

text \<open>The output path that \<open>run\<close> asks the resolver for.\<close>

definition output_path_of :: "controller \<Rightarrow> string \<Rightarrow> task_env \<Rightarrow> string" where
  "output_path_of c img_path env =
     resolve_name (existing env) (output_dir c) (splitext_root (os_path_basename img_path))"

text \<open>
  Environments in which the output is empty, and in which the original stays locked; and
  a job of one file whose task is past its checkpoint, with the two flags
  \<open>keep_metadata\<close> and \<open>delete_originals\<close> as given.
\<close>

definition empty_output_env :: task_env where
  "empty_output_env = (sample_env 100 0 1)"

definition locked_original_env :: task_env where
  "locked_original_env = (sample_env 100 50 1)\<lparr>os_remove := (\<lambda>k. Some (PermissionError ''in use''))\<rparr>"

definition one_file_job :: "bool \<Rightarrow> bool \<Rightarrow> system" where
  "one_file_job keep del =
     the (exec [StartIteration, Checkpoint 0] (new_job [''in/x.jpg''] ''out'' 87 keep del 1 0))"

lemma run_convert_empty_output:
  "getsize_in env img_path = Inr a \<Longrightarrow> image_open env img_path = None \<Longrightarrow>
   (if keep_metadata c then save_with_metadata env img_path (output_path_of c img_path env)
    else image_save env (output_path_of c img_path env)) = None \<Longrightarrow>
   getsize_out env (output_path_of c img_path env) = Inr b \<Longrightarrow> int b \<le> 0 \<Longrightarrow>
   run_convert c img_path env = Inl (RuntimeError ''Empty WEBP'')"
  by (cases "keep_metadata c") (simp_all add: run_convert_def output_path_of_def Let_def)

lemma run_body_status:
  "total c \<noteq> 0 \<Longrightarrow>
   (fst (run_body c img_path env) = Failed) = (\<exists>e. run_convert c img_path env = Inl e)"
proof (cases "run_convert c img_path env")
  case (Inl e)
  assume "total c \<noteq> 0"
  from run_body_failed [OF Inl] Inl show ?thesis by simp
next
  case (Inr ab)
  assume t: "total c \<noteq> 0"
  obtain a b where "ab = (a, b)" by (cases ab)
  with Inr have "run_convert c img_path env = Inr (a, b)" by simp
  from run_body_succeeded [OF this t] Inr show ?thesis by auto
qed

text \<open>
  Claim C6. Whatever exception the \<open>try\<close> body of a task raises before it reports
  success - the size of the input, the decoding, the metadata check, the encoding, the
  size of the output, an output of size zero or less (\<open>RuntimeError("Empty WEBP")\<close>),
  the deletion of the original - the task ends as failed: the controller, and so every
  counter, is as before, and exactly one error signal is emitted, the file name, the
  arrow and the message of the exception. \<open>run_body\<close> has no exceptional result, so
  nothing leaves the task. For a controller with \<open>total \<noteq> 0\<close>, which is the case
  of every task of a job, these are the only failures. The same holds of the step of a
  job in which a task runs its \<open>try\<close> statement. (With \<open>total = 0\<close> the division in
  \<open>task_finished\<close> would raise after the counters were updated.)
\<close>

theorem task_exception_reported:
  "(run_convert c img_path env = Inl e \<longrightarrow>
      run_body c img_path env =
        (Failed, c, [ErrorSignal (os_path_basename img_path @ '' '' @ arrow @ '' '' @ str_exn e)])) \<and>
   (total c \<noteq> 0 \<longrightarrow>
      (fst (run_body c img_path env) = Failed) = (\<exists>e. run_convert c img_path env = Inl e)) \<and>
   (getsize_in env img_path = Inr a \<and> image_open env img_path = None \<and>
    (if keep_metadata c then save_with_metadata env img_path (output_path_of c img_path env)
     else image_save env (output_path_of c img_path env)) = None \<and>
    getsize_out env (output_path_of c img_path env) = Inr b \<and> int b \<le> 0 \<longrightarrow>
      run_convert c img_path env = Inl (RuntimeError ''Empty WEBP'') \<and>
      run_body c img_path env =
        (Failed, c, [ErrorSignal (os_path_basename img_path @ '' '' @ arrow @ '' Empty WEBP'')])) \<and>
   (exec acts (new_job fs out q keep del w now) = Some s \<and>
    (act = Count i env \<or> act = Complete i env) \<and> step act s = Some s' \<and>
    run_convert (ctrl s) (fst (tasks s ! i)) env = Inl e \<longrightarrow>
      ctrl s' = ctrl s \<and> snd (tasks s' ! i) = Failed \<and>
      emitted s' = emitted s @
        [ErrorSignal (os_path_basename (fst (tasks s ! i)) @ '' '' @ arrow @ '' '' @ str_exn e)])"
proof (intro conjI impI)
  assume "run_convert c img_path env = Inl e"
  from run_body_failed [OF this]
  show "run_body c img_path env =
        (Failed, c, [ErrorSignal (os_path_basename img_path @ '' '' @ arrow @ '' '' @ str_exn e)])"
    by (simp add: error_message_def)
next
  assume "total c \<noteq> 0"
  then show "(fst (run_body c img_path env) = Failed) = (\<exists>e. run_convert c img_path env = Inl e)"
    by (rule run_body_status)
next
  assume h: "getsize_in env img_path = Inr a \<and> image_open env img_path = None \<and>
    (if keep_metadata c then save_with_metadata env img_path (output_path_of c img_path env)
     else image_save env (output_path_of c img_path env)) = None \<and>
    getsize_out env (output_path_of c img_path env) = Inr b \<and> int b \<le> 0"
  then show r: "run_convert c img_path env = Inl (RuntimeError ''Empty WEBP'')"
    by (intro run_convert_empty_output [of env img_path a c b]) simp_all
  from run_body_failed [OF r]
  show "run_body c img_path env =
        (Failed, c, [ErrorSignal (os_path_basename img_path @ '' '' @ arrow @ '' Empty WEBP'')])"
    by (simp add: error_message_def)
next
  assume h: "exec acts (new_job fs out q keep del w now) = Some s \<and>
    (act = Count i env \<or> act = Complete i env) \<and> step act s = Some s' \<and>
    run_convert (ctrl s) (fst (tasks s ! i)) env = Inl e"
  then have inv: "job_inv s" using job_inv_exec [OF job_inv_new] by blast
  from h have st: "step act s = Some s'"
    and r: "run_convert (ctrl s) (fst (tasks s ! i)) env = Inl e" by simp_all
  from h consider "act = Count i env" | "act = Complete i env" by blast
  then have "i < length (tasks s) \<and> s' = s\<lparr>ctrl := ctrl s,
        tasks := (tasks s)[i := (fst (tasks s ! i), Failed)],
        emitted := emitted s @ [ErrorSignal (error_message (fst (tasks s ! i)) e)]\<rparr>"
  proof cases
    case 1
    from step_count_cases [OF inv st [unfolded 1]] r show ?thesis by auto
  next
    case 2
    from step_complete_cases [OF inv st [unfolded 2]] r show ?thesis by auto
  qed
  then have i: "i < length (tasks s)" and s': "s' = s\<lparr>ctrl := ctrl s,
        tasks := (tasks s)[i := (fst (tasks s ! i), Failed)],
        emitted := emitted s @ [ErrorSignal (error_message (fst (tasks s ! i)) e)]\<rparr>"
    by simp_all
  from s' show "ctrl s' = ctrl s" by simp
  from s' i show "snd (tasks s' ! i) = Failed" by simp
  from s' show "emitted s' = emitted s @
        [ErrorSignal (os_path_basename (fst (tasks s ! i)) @ '' '' @ arrow @ '' '' @ str_exn e)]"
    by (simp add: error_message_def)
qed

text \<open>
  The witness: a \<open>.jpg\<close> file whose output is empty, whose workflow is to be kept, or
  whose original cannot be deleted within the retries; and the completion step of the
  first case in a job.
\<close>

theorem task_exception_reported_witness:
  "run_body (ctrl (one_file_job False False)) ''in/x.jpg'' empty_output_env =
     (Failed, ctrl (one_file_job False False), [ErrorSignal (''x.jpg '' @ arrow @ '' Empty WEBP'')]) \<and>
   run_body (ctrl (one_file_job True False)) ''in/x.jpg'' (sample_env 100 50 1) =
     (Failed, ctrl (one_file_job True False),
      [ErrorSignal (''x.jpg '' @ arrow @ '' Workflow requires PNG'')]) \<and>
   run_body (ctrl (one_file_job False True)) ''in/x.jpg'' locked_original_env =
     (Failed, ctrl (one_file_job False True), [ErrorSignal (''x.jpg '' @ arrow @ '' in use'')]) \<and>
   fst (run_body (ctrl (one_file_job False False)) ''in/x.jpg'' (sample_env 100 50 1)) =
     Succeeded 100 50 \<and>
   (\<exists>s'. step (Complete 0 empty_output_env) (one_file_job False False) = Some s' \<and>
      ctrl s' = ctrl (one_file_job False False) \<and> completed (ctrl s') = 0 \<and>
      total (ctrl s') = 1 \<and> tasks s' = [(''in/x.jpg'', Failed)] \<and>
      emitted s' = [ErrorSignal (''x.jpg '' @ arrow @ '' Empty WEBP'')])"
proof -
  have r1: "run_convert (ctrl (one_file_job False False)) ''in/x.jpg'' empty_output_env =
      Inl (RuntimeError ''Empty WEBP'')"
    and r2: "run_convert (ctrl (one_file_job True False)) ''in/x.jpg'' (sample_env 100 50 1) =
      Inl (ValueError ''Workflow requires PNG'')"
    and r3: "run_convert (ctrl (one_file_job False True)) ''in/x.jpg'' locked_original_env =
      Inl (PermissionError ''in use'')"
    unfolding one_file_job_def empty_output_env_def locked_original_env_def by code_simp+
  have b: "os_path_basename ''in/x.jpg'' = ''x.jpg''" by code_simp
  define s' where "s' = the (step (Complete 0 empty_output_env) (one_file_job False False))"
  have e1: "exec [StartIteration, Checkpoint 0] (new_job [''in/x.jpg''] ''out'' 87 False False 1 0)
      = Some (one_file_job False False)"
    and e2: "step (Complete 0 empty_output_env) (one_file_job False False) = Some s'"
    and e3: "fst (tasks (one_file_job False False) ! 0) = ''in/x.jpg''"
    and e4: "completed (ctrl (one_file_job False False)) = 0"
      "total (ctrl (one_file_job False False)) = 1"
      "emitted (one_file_job False False) = []"
      "tasks s' = [(''in/x.jpg'', Failed)]"
    unfolding s'_def one_file_job_def empty_output_env_def by code_simp+
  note th = task_exception_reported
  from th [of "ctrl (one_file_job False False)" "''in/x.jpg''" empty_output_env
      "RuntimeError ''Empty WEBP''", THEN conjunct1] r1
  have "run_body (ctrl (one_file_job False False)) ''in/x.jpg'' empty_output_env =
     (Failed, ctrl (one_file_job False False),
      [ErrorSignal (os_path_basename ''in/x.jpg'' @ '' '' @ arrow @ '' '' @
         str_exn (RuntimeError ''Empty WEBP''))])" by blast
  then have a1: "run_body (ctrl (one_file_job False False)) ''in/x.jpg'' empty_output_env =
     (Failed, ctrl (one_file_job False False), [ErrorSignal (''x.jpg '' @ arrow @ '' Empty WEBP'')])"
    by (simp add: b)
  from th [of "ctrl (one_file_job True False)" "''in/x.jpg''" "sample_env 100 50 1"
      "ValueError ''Workflow requires PNG''", THEN conjunct1] r2
  have "run_body (ctrl (one_file_job True False)) ''in/x.jpg'' (sample_env 100 50 1) =
     (Failed, ctrl (one_file_job True False),
      [ErrorSignal (os_path_basename ''in/x.jpg'' @ '' '' @ arrow @ '' '' @
         str_exn (ValueError ''Workflow requires PNG''))])" by blast
  then have a2: "run_body (ctrl (one_file_job True False)) ''in/x.jpg'' (sample_env 100 50 1) =
     (Failed, ctrl (one_file_job True False),
      [ErrorSignal (''x.jpg '' @ arrow @ '' Workflow requires PNG'')])"
    by (simp add: b)
  from th [of "ctrl (one_file_job False True)" "''in/x.jpg''" locked_original_env
      "PermissionError ''in use''", THEN conjunct1] r3
  have "run_body (ctrl (one_file_job False True)) ''in/x.jpg'' locked_original_env =
     (Failed, ctrl (one_file_job False True),
      [ErrorSignal (os_path_basename ''in/x.jpg'' @ '' '' @ arrow @ '' '' @
         str_exn (PermissionError ''in use''))])" by blast
  then have a3: "run_body (ctrl (one_file_job False True)) ''in/x.jpg'' locked_original_env =
     (Failed, ctrl (one_file_job False True), [ErrorSignal (''x.jpg '' @ arrow @ '' in use'')])"
    by (simp add: b)
  have a4: "fst (run_body (ctrl (one_file_job False False)) ''in/x.jpg'' (sample_env 100 50 1)) =
     Succeeded 100 50"
    unfolding one_file_job_def by code_simp
  from r1 e3 have r1': "run_convert (ctrl (one_file_job False False))
      (fst (tasks (one_file_job False False) ! 0)) empty_output_env =
      Inl (RuntimeError ''Empty WEBP'')" by simp
  from th [where env = empty_output_env and e = "RuntimeError ''Empty WEBP''"
      and acts = "[StartIteration, Checkpoint 0]" and fs = "[''in/x.jpg'']" and out = "''out''"
      and q = 87 and keep = False and del = False and w = 1 and now = 0
      and s = "one_file_job False False" and i = 0 and s' = s'
      and act = "Complete 0 empty_output_env",
      THEN conjunct2, THEN conjunct2, THEN conjunct2] e1 e2 r1'
  have "ctrl s' = ctrl (one_file_job False False) \<and> snd (tasks s' ! 0) = Failed \<and>
      emitted s' = emitted (one_file_job False False) @
        [ErrorSignal (os_path_basename (fst (tasks (one_file_job False False) ! 0)) @ '' '' @
           arrow @ '' '' @ str_exn (RuntimeError ''Empty WEBP''))]" by blast
  then have a5: "ctrl s' = ctrl (one_file_job False False)"
      "emitted s' = [ErrorSignal (''x.jpg '' @ arrow @ '' Empty WEBP'')]"
    by (simp_all add: e3 e4 b)
  from a1 a2 a3 a4 a5 e2 e4 show ?thesis by simp
qed


section \<open>Dispatch\<close>

text \<open>
  The files of the tasks handed to the pool are the first \<open>k\<close> input files, in order,
  and the loop of \<open>start()\<close> has either the other files before it or has ended.
\<close>

definition dispatched_prefix :: "string list \<Rightarrow> system \<Rightarrow> bool" where
  "dispatched_prefix fs s =
     (\<exists>k. k \<le> length fs \<and> map fst (tasks s) = take k fs \<and>
          (pending s = drop k fs \<or> pending s = []))"

text \<open>A job of two files on which nothing has run yet.\<close>

definition two_file_job :: system where
  "two_file_job = new_job [''a.png'', ''b.png''] ''out'' 87 False False 2 0"

text \<open>
  Follows the words of the specification, not the source: an iteration of a loop whose
  check of the flag was made once, before dispatch began, with the value
  \<open>cancelled_before_dispatch\<close> it had then.
\<close>

definition start_iteration_checked_once :: "bool \<Rightarrow> system \<Rightarrow> system option" where
  "start_iteration_checked_once cancelled_before_dispatch s =
     (case pending s of
        [] \<Rightarrow> None
      | f # fs \<Rightarrow>
          if cancelled_before_dispatch then Some (s\<lparr>pending := []\<rparr>)
          else Some (s\<lparr>pending := fs, tasks := tasks s @ [(f, Queued)]\<rparr>))"

lemma map_fst_status: "i < length ts \<Longrightarrow> map fst (ts[i := (fst (ts ! i), st)]) = map fst ts"
  by (simp add: map_update list_update_same_conv)

lemma dispatched_prefix_start_iteration:
  assumes d: "dispatched_prefix fs s" and st: "start_iteration s = Some s'"
  shows "dispatched_prefix fs s'"
proof -
  from st obtain f rest where p: "pending s = f # rest"
    by (auto simp: start_iteration_def split: list.splits)
  from d p obtain k where k: "k \<le> length fs" "map fst (tasks s) = take k fs"
    "f # rest = drop k fs" by (auto simp: dispatched_prefix_def)
  show ?thesis
  proof (cases "cancelled (ctrl s)")
    case True
    with st p have "s' = s\<lparr>pending := []\<rparr>" by (simp add: start_iteration_def)
    with k show ?thesis by (auto simp: dispatched_prefix_def)
  next
    case False
    with st p have s': "s' = s\<lparr>pending := rest, tasks := tasks s @ [(f, Queued)]\<rparr>"
      by (simp add: start_iteration_def)
    from k(3) have lt: "k < length fs" by (cases "k < length fs") auto
    from k(3) lt have f: "f = fs ! k" and r: "rest = drop (Suc k) fs"
      by (simp_all add: Cons_nth_drop_Suc [symmetric])
    from lt f k(2) have "map fst (tasks s @ [(f, Queued)]) = take (Suc k) fs"
      by (simp add: take_Suc_conv_app_nth)
    with s' r lt show ?thesis
      unfolding dispatched_prefix_def by (intro exI [of _ "Suc k"]) simp
  qed
qed

lemma dispatched_prefix_step:
  assumes d: "dispatched_prefix fs s" and st: "step a s = Some s'"
  shows "dispatched_prefix fs s'"
proof (cases a)
  case StartIteration
  with d st show ?thesis by (simp add: dispatched_prefix_start_iteration)
next
  case (Checkpoint i)
  with d st show ?thesis
    by (auto simp: dispatched_prefix_def map_fst_status split: if_splits gate.splits)
next
  case (Count i env)
  with d st show ?thesis
    by (auto simp: dispatched_prefix_def map_fst_status Let_def split: if_splits prod.splits)
next
  case (Report i now)
  with d st show ?thesis
    by (auto simp: dispatched_prefix_def map_fst_status split: if_splits option.splits)
next
  case (Complete i env)
  with d st show ?thesis
    by (auto simp: dispatched_prefix_def map_fst_status Let_def split: if_splits prod.splits)
qed (use d st in \<open>auto simp: dispatched_prefix_def\<close>)

lemma dispatched_prefix_exec:
  "dispatched_prefix fs s \<Longrightarrow> exec as s = Some s' \<Longrightarrow> dispatched_prefix fs s'"
proof (induction as arbitrary: s)
  case Nil then show ?case by simp
next
  case (Cons a as)
  from Cons.prems(2) obtain s1 where s1: "step a s = Some s1" and e: "exec as s1 = Some s'"
    by (auto split: option.splits)
  from Cons.IH [OF dispatched_prefix_step [OF Cons.prems(1) s1] e] show ?case .
qed

lemma dispatched_prefix_new: "dispatched_prefix fs (new_job fs out q keep del w now)"
  unfolding dispatched_prefix_def by (intro exI [of _ 0]) (simp add: new_job_def)

lemma start_loop_clear:
  "\<not> cancelled (ctrl s) \<Longrightarrow>
   start_loop fs s = s\<lparr>pending := [], tasks := tasks s @ map (\<lambda>f. (f, Queued)) fs\<rparr>"
proof (induction fs arbitrary: s)
  case Nil then show ?case by simp
next
  case (Cons f fs)
  have "\<not> cancelled (ctrl (s\<lparr>pending := fs, tasks := tasks s @ [(f, Queued)]\<rparr>))"
    using Cons.prems by simp
  from Cons.IH [OF this] Cons.prems show ?case by simp
qed

lemma start_loop_cancelled: "cancelled (ctrl s) \<Longrightarrow> start_loop fs s = s\<lparr>pending := []\<rparr>"
  by (cases fs) simp_all

text \<open>
  Claim C4, as the source has it. \<open>start()\<close> reads the \<open>cancelled\<close> flag in every
  iteration, before the submission of that iteration: with the flag clear it hands one
  task for the next input path to the pool, with the flag set it ends the loop and
  submits nothing more. So in every state of a job the files of the submitted tasks are a
  prefix of the input, in input order, one task per path. A \<open>start()\<close> during which the
  flag stays clear submits one task per input path; one that finds it set at once
  submits none. A task that was submitted still makes its own check when it leaves its
  checkpoint.
\<close>

theorem start_checks_each_item:
  "(pending s = f # rest \<longrightarrow>
      start_iteration s =
        Some (if cancelled (ctrl s) then s\<lparr>pending := []\<rparr>
              else s\<lparr>pending := rest, tasks := tasks s @ [(f, Queued)]\<rparr>)) \<and>
   (exec as (new_job fs out q keep del w now) = Some s \<longrightarrow>
      (\<exists>k. k \<le> length fs \<and> map fst (tasks s) = take k fs \<and>
           (pending s = drop k fs \<or> pending s = []))) \<and>
   (\<not> cancelled (ctrl s) \<longrightarrow>
      start s =
        s\<lparr>pending := [], tasks := tasks s @ map (\<lambda>f. (f, Queued)) (files (ctrl s))\<rparr>) \<and>
   (cancelled (ctrl s) \<longrightarrow> start s = s\<lparr>pending := []\<rparr>) \<and>
   (i < length (tasks s) \<and> snd (tasks s ! i) = Queued \<and> \<not> paused (ctrl s) \<longrightarrow>
      step (Checkpoint i) s =
        Some (s\<lparr>tasks := (tasks s)[i := (fst (tasks s ! i),
                 if cancelled (ctrl s) then Skipped else Converting)]\<rparr>))"
proof (intro conjI impI)
  assume "pending s = f # rest"
  then show "start_iteration s =
        Some (if cancelled (ctrl s) then s\<lparr>pending := []\<rparr>
              else s\<lparr>pending := rest, tasks := tasks s @ [(f, Queued)]\<rparr>)"
    by (simp add: start_iteration_def)
next
  assume "exec as (new_job fs out q keep del w now) = Some s"
  from dispatched_prefix_exec [OF dispatched_prefix_new this]
  show "\<exists>k. k \<le> length fs \<and> map fst (tasks s) = take k fs \<and>
           (pending s = drop k fs \<or> pending s = [])"
    by (simp add: dispatched_prefix_def)
next
  assume "\<not> cancelled (ctrl s)"
  then show "start s =
        s\<lparr>pending := [], tasks := tasks s @ map (\<lambda>f. (f, Queued)) (files (ctrl s))\<rparr>"
    by (simp add: start_def start_loop_clear)
next
  assume "cancelled (ctrl s)"
  then show "start s = s\<lparr>pending := []\<rparr>"
    by (simp add: start_def start_loop_cancelled)
next
  assume "i < length (tasks s) \<and> snd (tasks s ! i) = Queued \<and> \<not> paused (ctrl s)"
  then show "step (Checkpoint i) s =
        Some (s\<lparr>tasks := (tasks s)[i := (fst (tasks s ! i),
                 if cancelled (ctrl s) then Skipped else Converting)]\<rparr>)"
    by (simp add: run_checkpoint_def)
qed

text \<open>
  The witness: the job of two files, started undisturbed, started after \<open>cancel()\<close>, and
  cancelled between the two iterations.
\<close>

theorem start_checks_each_item_witness:
  "tasks (start two_file_job) = [(''a.png'', Queued), (''b.png'', Queued)] \<and>
   pending (start two_file_job) = [] \<and>
   tasks (start (two_file_job\<lparr>ctrl := cancel (ctrl two_file_job)\<rparr>)) = [] \<and>
   (\<exists>s. exec [StartIteration, Cancel] two_file_job = Some s \<and>
      pending s = [''b.png''] \<and> tasks s = [(''a.png'', Queued)] \<and>
      start_iteration s = Some (s\<lparr>pending := []\<rparr>) \<and>
      step (Checkpoint 0) s = Some (s\<lparr>tasks := [(''a.png'', Skipped)]\<rparr>))"
proof -
  note th = start_checks_each_item
  define s where "s = the (exec [StartIteration, Cancel] two_file_job)"
  have e: "exec [StartIteration, Cancel] (new_job [''a.png'', ''b.png''] ''out'' 87 False False 2 0)
      = Some s"
    unfolding s_def two_file_job_def by code_simp
  have v: "pending s = [''b.png'']" "tasks s = [(''a.png'', Queued)]" "cancelled (ctrl s)"
    "\<not> paused (ctrl s)" "\<not> cancelled (ctrl two_file_job)"
    "files (ctrl two_file_job) = [''a.png'', ''b.png'']" "tasks two_file_job = []"
    "cancelled (ctrl (two_file_job\<lparr>ctrl := cancel (ctrl two_file_job)\<rparr>))"
    unfolding s_def two_file_job_def by code_simp+
  from th [of s "''b.png''" "[]", THEN conjunct1] v
  have a1: "start_iteration s = Some (s\<lparr>pending := []\<rparr>)" by simp
  from th [of s _ _ "[StartIteration, Cancel]" "[''a.png'', ''b.png'']" "''out''" 87 False False 2 0,
      THEN conjunct2, THEN conjunct1] e
  have a2: "\<exists>k. k \<le> length [''a.png'', ''b.png''] \<and> map fst (tasks s) = take k [''a.png'', ''b.png'']
      \<and> (pending s = drop k [''a.png'', ''b.png''] \<or> pending s = [])" by blast
  from th [of two_file_job, THEN conjunct2, THEN conjunct2, THEN conjunct1] v
  have a3: "start two_file_job = two_file_job\<lparr>pending := [],
      tasks := [] @ map (\<lambda>f. (f, Queued)) [''a.png'', ''b.png'']\<rparr>" by simp
  from th [of "two_file_job\<lparr>ctrl := cancel (ctrl two_file_job)\<rparr>",
      THEN conjunct2, THEN conjunct2, THEN conjunct2, THEN conjunct1] v
  have a4: "start (two_file_job\<lparr>ctrl := cancel (ctrl two_file_job)\<rparr>) =
      two_file_job\<lparr>ctrl := cancel (ctrl two_file_job), pending := []\<rparr>" by simp
  from th [of s _ _ _ _ _ _ _ _ _ _ 0,
      THEN conjunct2, THEN conjunct2, THEN conjunct2, THEN conjunct2] v
  have a5: "step (Checkpoint 0) s = Some (s\<lparr>tasks := [(''a.png'', Skipped)]\<rparr>)" by simp
  from a1 a2 a3 a4 a5 e v show ?thesis by (simp add: two_file_job_def)
qed


text \<open>
  Claim C4 as the specification words it (one task per input path, the flag being
  checked once before dispatch begins and not once per item) fails: the flag is clear
  when dispatch begins, \<open>cancel()\<close> arrives after the first submission, and the second
  iteration ends the loop, so \<open>b.png\<close> is never submitted. A loop that had checked once
  would have submitted it.
\<close>

theorem start_check_once_counterexample:
  "files (ctrl two_file_job) = [''a.png'', ''b.png''] \<and>
   pending two_file_job = [''a.png'', ''b.png''] \<and>
   \<not> cancelled (ctrl two_file_job) \<and>
   map_option tasks (exec [StartIteration, Cancel, StartIteration] two_file_job) =
     Some [(''a.png'', Queued)] \<and>
   map_option pending (exec [StartIteration, Cancel, StartIteration] two_file_job) = Some [] \<and>
   exec [StartIteration, Cancel, StartIteration, StartIteration] two_file_job = None \<and>
   map_option tasks
     (Option.bind (exec [StartIteration, Cancel] two_file_job)
        (start_iteration_checked_once (cancelled (ctrl two_file_job)))) =
     Some [(''a.png'', Queued), (''b.png'', Queued)] \<and>
   Option.bind (exec [StartIteration, Cancel] two_file_job)
        (start_iteration_checked_once (cancelled (ctrl two_file_job))) \<noteq>
   Option.bind (exec [StartIteration, Cancel] two_file_job) start_iteration"
  unfolding two_file_job_def by code_simp

section \<open>Configuration\<close>

lemma idle_step:
  "tasks s = [] \<Longrightarrow> pending s = [] \<Longrightarrow> step a s = Some s' \<Longrightarrow>
   tasks s' = [] \<and> pending s' = [] \<and> emitted s' = emitted s \<and>
   completed (ctrl s') = completed (ctrl s) \<and> total (ctrl s') = total (ctrl s)"
  by (cases a) (auto simp: start_iteration_def pause_def resume_def cancel_def)

lemma idle_exec:
  "tasks s = [] \<Longrightarrow> pending s = [] \<Longrightarrow> exec as s = Some s' \<Longrightarrow>
   tasks s' = [] \<and> pending s' = [] \<and> emitted s' = emitted s \<and>
   completed (ctrl s') = completed (ctrl s) \<and> total (ctrl s') = total (ctrl s)"
proof (induction as arbitrary: s)
  case Nil then show ?case by simp
next
  case (Cons a as)
  from Cons.prems(3) obtain s1 where s1: "step a s = Some s1" and e: "exec as s1 = Some s'"
    by (auto split: option.splits)
  from idle_step [OF Cons.prems(1,2) s1] have i: "tasks s1 = []" "pending s1 = []"
    "emitted s1 = emitted s" "completed (ctrl s1) = completed (ctrl s)"
    "total (ctrl s1) = total (ctrl s)" by simp_all
  from Cons.IH [OF i(1,2) e] i show ?case by simp
qed

text \<open>
  Claim C9, as the source has it. The controller validates nothing and has no
  configuration error: the number of workers is only stored as the pool's limit, and
  the constructor is the same function of its other arguments whatever that number is.
  \<open>start()\<close> on a new job submits one task per input path, for any number of workers,
  and emits nothing. With an empty input set \<open>total\<close> is 0 and, in every state the job
  reaches, no task exists and no signal has been emitted.
\<close>

theorem no_config_validation:
  "JobController_init fs out q keep del w now =
     (JobController_init fs out q keep del 1 now)\<lparr>max_thread_count := w\<rparr> \<and>
   start (new_job fs out q keep del w now) =
     (new_job fs out q keep del w now)\<lparr>pending := [], tasks := map (\<lambda>f. (f, Queued)) fs\<rparr> \<and>
   emitted (start (new_job fs out q keep del w now)) = [] \<and>
   (exec as (new_job [] out q keep del w now) = Some s \<longrightarrow>
      tasks s = [] \<and> emitted s = [] \<and> total (ctrl s) = 0 \<and> completed (ctrl s) = 0)"
proof -
  have a: "JobController_init fs out q keep del w now =
     (JobController_init fs out q keep del 1 now)\<lparr>max_thread_count := w\<rparr>"
    by (simp add: JobController_init_def)
  have c: "\<not> cancelled (ctrl (new_job fs out q keep del w now))"
    by (simp add: new_job_def JobController_init_def)
  from start_loop_clear [OF c]
  have s: "start (new_job fs out q keep del w now) =
     (new_job fs out q keep del w now)\<lparr>pending := [], tasks := map (\<lambda>f. (f, Queued)) fs\<rparr>"
    by (simp add: start_def new_job_def JobController_init_def)
  have b: "emitted (start (new_job fs out q keep del w now)) = []"
    unfolding s by (simp add: new_job_def)
  have d: "exec as (new_job [] out q keep del w now) = Some s \<longrightarrow>
      tasks s = [] \<and> emitted s = [] \<and> total (ctrl s) = 0 \<and> completed (ctrl s) = 0"
  proof
    assume e: "exec as (new_job [] out q keep del w now) = Some s"
    have "tasks (new_job [] out q keep del w now) = []"
      "pending (new_job [] out q keep del w now) = []"
      by (simp_all add: new_job_def)
    from idle_exec [OF this e]
    show "tasks s = [] \<and> emitted s = [] \<and> total (ctrl s) = 0 \<and> completed (ctrl s) = 0"
      by (simp add: new_job_def JobController_init_def)
  qed
  from a s b d show ?thesis by blast
qed

text \<open>
  The witness: a job without input and with zero workers, paused, cancelled and resumed.
\<close>

theorem no_config_validation_witness:
  "\<exists>s. exec [Pause, Cancel, Resume] (new_job [] ''out'' 87 False False 0 0) = Some s \<and>
     tasks s = [] \<and> emitted s = [] \<and> total (ctrl s) = 0 \<and> completed (ctrl s) = 0"
proof -
  define s where "s = the (exec [Pause, Cancel, Resume] (new_job [] ''out'' 87 False False 0 0))"
  have e: "exec [Pause, Cancel, Resume] (new_job [] ''out'' 87 False False 0 0) = Some s"
    unfolding s_def by code_simp
  from no_config_validation [of _ "''out''" 87 False False 0 0 "[Pause, Cancel, Resume]" s,
      THEN conjunct2, THEN conjunct2, THEN conjunct2] e
  show ?thesis by blast
qed


text \<open>
  Claim C9 as the specification words it (zero workers or an empty input set surface as
  a configuration error before \<open>start()\<close> dispatches any task, so that the job never
  begins) fails: with zero workers and one input, \<open>start()\<close> submits the task and emits
  nothing, and the job runs to its \<open>finished\<close> signal; with an empty input set
  \<open>start()\<close> emits nothing either.
\<close>

theorem config_error_counterexample:
  "max_thread_count (JobController_init [''a.png''] ''out'' 87 False False 0 0) = 0 \<and>
   tasks (start (new_job [''a.png''] ''out'' 87 False False 0 0)) = [(''a.png'', Queued)] \<and>
   emitted (start (new_job [''a.png''] ''out'' 87 False False 0 0)) = [] \<and>
   map_option tasks (exec [StartIteration] (new_job [''a.png''] ''out'' 87 False False 0 0)) =
     Some [(''a.png'', Queued)] \<and>
   map_option emitted
     (exec [StartIteration, Checkpoint 0, Complete 0 (sample_env 100 50 1)]
        (new_job [''a.png''] ''out'' 87 False False 0 0)) =
     Some [ProgressSignal 100, EtaSignal ''00:00:00'', FinishedSignal 1 50] \<and>
   total (JobController_init [] ''out'' 87 False False 2 0) = 0 \<and>
   emitted (start (new_job [] ''out'' 87 False False 2 0)) = []"
  by code_simp


end
